theory Spec2Isabelle
  imports Complex_Main "HOL-Library.Word"
begin

section \<open>Strings and numbers of the source language\<close>

text \<open>
  A string of the program is a sequence of UTF-16 code units; \<open>length\<close> is the
  program's \<open>.length\<close>. A literal is written \<open>js ''...''\<close>.
\<close>

type_synonym jschar = "16 word"
type_synonym jsstring = "jschar list"

definition js :: "string \<Rightarrow> jsstring" where
  "js s = map of_char s"

text \<open>
  A \<open>number\<close> of the program, as far as the comparisons of the chunking code read it:
  a finite value, one of the two infinities, or NaN. Finite values are rationals, which
  cover every finite double; the comparisons below are exact on them.
\<close>

datatype jsnum = Fin rat | PosInf | NegInf | NaN

fun isFinite :: "jsnum \<Rightarrow> bool" where
  "isFinite (Fin r) = True"
| "isFinite PosInf = False"
| "isFinite NegInf = False"
| "isFinite NaN = False"

text \<open>\<open>x > 0\<close> on numbers: false on NaN.\<close>

fun gtZero :: "jsnum \<Rightarrow> bool" where
  "gtZero (Fin r) = (0 < r)"
| "gtZero PosInf = True"
| "gtZero NegInf = False"
| "gtZero NaN = False"

text \<open>\<open>n >= x\<close> for an array length \<open>n\<close> and a number \<open>x\<close>: false on NaN.\<close>

fun lengthGe :: "nat \<Rightarrow> jsnum \<Rightarrow> bool" where
  "lengthGe n (Fin r) = (r \<le> of_nat n)"
| "lengthGe n PosInf = False"
| "lengthGe n NegInf = True"
| "lengthGe n NaN = False"

section \<open>The chunking loop of translateEpub\<close>

text \<open>
  \<open>filtered\<close> holds \<open>{ node, text }\<close> entries; a \<open>Chunk\<close> is
  \<open>{ nodes, texts, charCount }\<close>. The node type is a parameter: the loop only
  copies node references.
\<close>

record 'n block =
  node :: 'n
  btext :: jsstring

record 'n chunk =
  nodes :: "'n list"
  texts :: "jsstring list"
  charCount :: nat

definition MAX_CHARS_PER_CHUNK :: nat where
  "MAX_CHARS_PER_CHUNK = 20000"

definition emptyChunk :: "'n chunk" where
  "emptyChunk = \<lparr>nodes = [], texts = [], charCount = 0\<rparr>"

text \<open>
  \<open>MAX_PARAS_PER_CHUNK = Number.isFinite(chunkSize) && chunkSize > 0 ? chunkSize :
  Number.POSITIVE_INFINITY\<close>.
\<close>

definition MAX_PARAS_PER_CHUNK :: "jsnum \<Rightarrow> jsnum" where
  "MAX_PARAS_PER_CHUNK sz =
     (if isFinite sz \<and> gtZero sz then sz else PosInf)"

text \<open>
  One pass of the \<open>for\<close> loop over \<open>filtered\<close>, with the loop's two variables
  \<open>chunks\<close> and \<open>cur\<close> as accumulators. The character budget is the first
  argument; translateEpub passes \<open>MAX_CHARS_PER_CHUNK\<close>.
\<close>

fun chunkLoop :: "nat \<Rightarrow> jsnum \<Rightarrow> 'n block list \<Rightarrow> 'n chunk list \<Rightarrow> 'n chunk
    \<Rightarrow> 'n chunk list \<times> 'n chunk" where
  "chunkLoop maxChars maxParas [] chunks cur = (chunks, cur)"
| "chunkLoop maxChars maxParas (b # bs) chunks cur =
     (let willExceedByChars =
            (charCount cur > 0 \<and> charCount cur + length (btext b) + 2 > maxChars);
          willExceedByCount = lengthGe (length (nodes cur)) maxParas;
          flush = ((willExceedByChars \<or> willExceedByCount) \<and> length (nodes cur) > 0);
          chunks1 = (if flush then chunks @ [cur] else chunks);
          cur1 = (if flush then emptyChunk else cur);
          cur2 = \<lparr>nodes = nodes cur1 @ [node b],
                  texts = texts cur1 @ [btext b],
                  charCount = charCount cur1 + (length (btext b) + 2)\<rparr>
      in if charCount cur2 \<ge> maxChars
         then chunkLoop maxChars maxParas bs (chunks1 @ [cur2]) emptyChunk
         else chunkLoop maxChars maxParas bs chunks1 cur2)"

text \<open>The loop from empty accumulators, then the push of a non-empty tail chunk.\<close>

definition chunkBlocks :: "nat \<Rightarrow> jsnum \<Rightarrow> 'n block list \<Rightarrow> 'n chunk list" where
  "chunkBlocks maxChars maxParas filtered =
     (case chunkLoop maxChars maxParas filtered [] emptyChunk of
        (chunks, cur) \<Rightarrow> if length (nodes cur) > 0 then chunks @ [cur] else chunks)"

text \<open>
  A chunk's total character count as the data model states it: the sum over its blocks
  of the text length plus a 2-character separator per block.
\<close>

definition charTotal :: "jsstring list \<Rightarrow> nat" where
  "charTotal ts = sum_list (map (\<lambda>t. length t + 2) ts)"

text \<open>
  The chunker with the block-count test left out: boundaries come from the character
  budget alone. It is stated from the words of the claim about non-positive and
  non-finite \<open>chunkSize\<close> values and is compared with \<open>chunkBlocks\<close> below.
\<close>

fun charsOnlyLoop :: "nat \<Rightarrow> 'n block list \<Rightarrow> 'n chunk list \<Rightarrow> 'n chunk
    \<Rightarrow> 'n chunk list \<times> 'n chunk" where
  "charsOnlyLoop maxChars [] chunks cur = (chunks, cur)"
| "charsOnlyLoop maxChars (b # bs) chunks cur =
     (let willExceedByChars =
            (charCount cur > 0 \<and> charCount cur + length (btext b) + 2 > maxChars);
          flush = (willExceedByChars \<and> length (nodes cur) > 0);
          chunks1 = (if flush then chunks @ [cur] else chunks);
          cur1 = (if flush then emptyChunk else cur);
          cur2 = \<lparr>nodes = nodes cur1 @ [node b],
                  texts = texts cur1 @ [btext b],
                  charCount = charCount cur1 + (length (btext b) + 2)\<rparr>
      in if charCount cur2 \<ge> maxChars
         then charsOnlyLoop maxChars bs (chunks1 @ [cur2]) emptyChunk
         else charsOnlyLoop maxChars bs chunks1 cur2)"

definition chunkByCharsOnly :: "nat \<Rightarrow> 'n block list \<Rightarrow> 'n chunk list" where
  "chunkByCharsOnly maxChars filtered =
     (case charsOnlyLoop maxChars filtered [] emptyChunk of
        (chunks, cur) \<Rightarrow> if length (nodes cur) > 0 then chunks @ [cur] else chunks)"

text \<open>Invariants of the loop: what holds of a pushed chunk, and of \<open>cur\<close>.\<close>

definition chunkOK :: "nat \<Rightarrow> 'n chunk \<Rightarrow> bool" where
  "chunkOK B c \<longleftrightarrow>
     charCount c = charTotal (texts c) \<and> length (texts c) = length (nodes c) \<and>
     nodes c \<noteq> [] \<and> (charCount c \<le> B \<or> (length (nodes c) = 1 \<and> charCount c > B))"

definition curOK :: "nat \<Rightarrow> 'n chunk \<Rightarrow> bool" where
  "curOK B c \<longleftrightarrow>
     charCount c = charTotal (texts c) \<and> length (texts c) = length (nodes c) \<and>
     (nodes c = [] \<or> charCount c < B)"

section \<open>Character classes and the regular expressions of the helpers\<close>

text \<open>
  The class \<open>\s\<close> of the program's regular expressions, which is also what
  \<open>trim()\<close> strips: the white space and line terminator code units.
\<close>

definition isSpace :: "jschar \<Rightarrow> bool" where
  "isSpace c \<longleftrightarrow>
     c \<in> {9, 10, 11, 12, 13, 32, 160, 5760, 8192, 8193, 8194, 8195, 8196, 8197, 8198,
          8199, 8200, 8201, 8202, 8232, 8233, 8239, 8287, 12288, 65279}"

text \<open>The class \<open>\w\<close>: ASCII letters, digits and the underscore.\<close>

definition isWordChar :: "jschar \<Rightarrow> bool" where
  "isWordChar c \<longleftrightarrow>
     (48 \<le> c \<and> c \<le> 57) \<or> (65 \<le> c \<and> c \<le> 90) \<or> c = 95 \<or> (97 \<le> c \<and> c \<le> 122)"

text \<open>
  \<open>s.replace(/re/g, rep)\<close> for an expression that never matches the empty string:
  \<open>m xs\<close> is the length of the match of the expression at the start of \<open>xs\<close>
  (0 when there is none); the scan goes left to right and resumes after each match.
  The counter \<open>k\<close> is the number of code units of the current match still to skip.
\<close>

fun replaceAll :: "(jsstring \<Rightarrow> nat) \<Rightarrow> jsstring \<Rightarrow> nat \<Rightarrow> jsstring \<Rightarrow> jsstring" where
  "replaceAll m rep k [] = []"
| "replaceAll m rep k (c # cs) =
     (if k > 0 then replaceAll m rep (k - 1) cs
      else if m (c # cs) = 0 then c # replaceAll m rep 0 cs
      else rep @ replaceAll m rep (m (c # cs) - 1) cs)"

definition trim :: "jsstring \<Rightarrow> jsstring" where
  "trim s = rev (dropWhile isSpace (rev (dropWhile isSpace s)))"

text \<open>
  A code unit against a lower-case ASCII letter of a pattern under the flag \<open>i\<close>:
  the letter or its upper case (no code unit outside ASCII folds to an ASCII letter
  without the flag \<open>u\<close>).
\<close>

definition ciEq :: "jschar \<Rightarrow> jschar \<Rightarrow> bool" where
  "ciEq c p \<longleftrightarrow> c = p \<or> c = p - 32"

fun ciPrefix :: "jsstring \<Rightarrow> jsstring \<Rightarrow> bool" where
  "ciPrefix [] xs = True"
| "ciPrefix (p # ps) [] = False"
| "ciPrefix (p # ps) (x # xs) = (ciEq x p \<and> ciPrefix ps xs)"

text \<open>One alternative of the tag-name group, followed by \<open>></\<close>.\<close>

definition altThenGt :: "jsstring \<Rightarrow> jsstring \<Rightarrow> bool" where
  "altThenGt alt xs \<longleftrightarrow> ciPrefix alt xs \<and> take 1 (drop (length alt) xs) = [62]"

text \<open>The alternative \<open>h[1-6]\<close>, followed by \<open>></\<close>.\<close>

definition headingThenGt :: "jsstring \<Rightarrow> bool" where
  "headingThenGt xs \<longleftrightarrow>
     (case xs of h # d # g # _ \<Rightarrow> ciEq h 104 \<and> 49 \<le> d \<and> d \<le> 54 \<and> g = 62 | _ \<Rightarrow> False)"

text \<open>
  \<open>(p|div|h[1-6]|li|blockquote|ul|ol)></\<close> at the start of \<open>xs\<close>: the length
  matched, the alternatives tried in the order written.
\<close>

definition nameGtLen :: "jsstring \<Rightarrow> nat" where
  "nameGtLen xs =
     (if altThenGt (js ''p'') xs then 2
      else if altThenGt (js ''div'') xs then 4
      else if headingThenGt xs then 3
      else if altThenGt (js ''li'') xs then 3
      else if altThenGt (js ''blockquote'') xs then 11
      else if altThenGt (js ''ul'') xs then 3
      else if altThenGt (js ''ol'') xs then 3
      else 0)"

text \<open>\<open>/<\/?(p|div|h[1-6]|li|blockquote|ul|ol)>/i\<close> at the start of \<open>xs\<close>.\<close>

definition blockTagMatch :: "jsstring \<Rightarrow> nat" where
  "blockTagMatch xs =
     (case xs of
        [] \<Rightarrow> 0
      | c # r \<Rightarrow>
          if c \<noteq> 60 then 0
          else (case r of
                  [] \<Rightarrow> 0
                | d # r2 \<Rightarrow>
                    if d = 47 \<and> nameGtLen r2 > 0 then 2 + nameGtLen r2
                    else if nameGtLen r > 0 then 1 + nameGtLen r
                    else 0))"

text \<open>
  \<open>/\s+\n/\<close> at the start of \<open>xs\<close>: the greedy \<open>\s+\<close> gives back code units
  until a line feed follows, so the match ends at the last line feed of the leading run
  of white space that is not its first code unit.
\<close>

definition wsNlMatch :: "jsstring \<Rightarrow> nat" where
  "wsNlMatch xs =
     (let run = takeWhile isSpace xs;
          idxs = filter (\<lambda>i. run ! i = 10) [1..<length run]
      in if idxs = [] then 0 else Suc (last idxs))"

definition stripBlockTags :: "jsstring \<Rightarrow> jsstring" where
  "stripBlockTags html =
     trim (replaceAll wsNlMatch [10] 0 (replaceAll blockTagMatch [] 0 html))"

text \<open>\<open>/\u00A0|&nbsp;|&#xa0;/\<close> at the start of \<open>xs\<close>.\<close>

definition nbspMatch :: "jsstring \<Rightarrow> nat" where
  "nbspMatch xs =
     (if take 1 xs = [160] then 1
      else if take 6 xs = js ''&nbsp;'' then 6
      else if take 6 xs = js ''&#xa0;'' then 6
      else 0)"

definition normalizeText :: "jsstring \<Rightarrow> jsstring" where
  "normalizeText s = trim (replaceAll wsNlMatch [10] 0 (replaceAll nbspMatch [32] 0 s))"

text \<open>
  \<open>/\btranslated-bilingual\b/.test(cls)\<close>. The literal begins and ends with a word
  character, so the first \<open>\b\<close> holds when no word character precedes and the second
  when none follows. \<open>pw\<close>: the code unit before the current position is a word
  character.
\<close>

definition MARKER :: jsstring where
  "MARKER = js ''translated-bilingual''"

fun markerTestFrom :: "bool \<Rightarrow> jsstring \<Rightarrow> bool" where
  "markerTestFrom pw [] = False"
| "markerTestFrom pw (c # cs) =
     ((\<not> pw \<and> take (length MARKER) (c # cs) = MARKER \<and>
       (case drop (length MARKER) (c # cs) of [] \<Rightarrow> True | d # _ \<Rightarrow> \<not> isWordChar d))
      \<or> markerTestFrom (isWordChar c) cs)"

definition markerTest :: "jsstring \<Rightarrow> bool" where
  "markerTest cls = markerTestFrom False cls"

text \<open>
  The class names an element bears: the tokens of its \<open>class\<close> attribute, separated
  by ASCII white space.
\<close>

definition isWhitespace :: "jschar \<Rightarrow> bool" where
  "isWhitespace c \<longleftrightarrow> c = 32 \<or> c = 10 \<or> c = 9 \<or> c = 12 \<or> c = 13"

fun classTokensFrom :: "jsstring \<Rightarrow> jsstring \<Rightarrow> jsstring list" where
  "classTokensFrom cur [] = (if cur = [] then [] else [cur])"
| "classTokensFrom cur (c # cs) =
     (if isWhitespace c then (if cur = [] then [] else [cur]) @ classTokensFrom [] cs
      else classTokensFrom (cur @ [c]) cs)"

definition classTokens :: "jsstring \<Rightarrow> jsstring list" where
  "classTokens cls = classTokensFrom [] cls"

section \<open>The document tree and the library's markup parser\<close>

text \<open>
  The program works on the tree that the cheerio library builds (domhandler nodes). An
  element carries an identity, its tag name, its attributes and its children; the
  identity stands for the object reference that the program keeps in \<open>leafNodes\<close> and
  in \<open>chunk.nodes\<close>.
\<close>

datatype node =
    Element nat jsstring "(jsstring \<times> jsstring) list" "node list"
  | Text jsstring
  | Comment jsstring
  | Directive jsstring

fun nodeId :: "node \<Rightarrow> nat" where
  "nodeId (Element i n as cs) = i"
| "nodeId _ = 0"

fun nodeName :: "node \<Rightarrow> jsstring" where
  "nodeName (Element i n as cs) = n"
| "nodeName _ = []"

fun nodeAttribs :: "node \<Rightarrow> (jsstring \<times> jsstring) list" where
  "nodeAttribs (Element i n as cs) = as"
| "nodeAttribs _ = []"

fun childrenOf :: "node \<Rightarrow> node list" where
  "childrenOf (Element i n as cs) = cs"
| "childrenOf _ = []"

fun isElement :: "node \<Rightarrow> bool" where
  "isElement (Element i n as cs) = True"
| "isElement _ = False"

text \<open>
  The parser is the library's (htmlparser2 in XML mode, as \<open>xmlMode: true\<close> selects);
  it is not part of the repository. \<open>parseMarkup\<close> below follows its tokenizer state
  by state for elements, attributes, text, comments, declarations and processing
  instructions. Three things are left out: character references are not decoded (an
  ampersand is read as an ordinary character), a CDATA section is read as a
  declaration, and of an input that ends inside a tag the unfinished tag is dropped.
  The functions of the program take the parser as an argument, as they take \<open>$\<close>;
  theorems that depend on what the parser returns are stated for inputs without
  \<open><\<close> and \<open>&\<close>, or evaluated on concrete markup.
\<close>

datatype pevent =
    EText jsstring
  | EOpen jsstring "(jsstring \<times> jsstring) list"
  | ESelfClosed jsstring "(jsstring \<times> jsstring) list"
  | EClose jsstring
  | EComment jsstring
  | EDirective jsstring

datatype tmode =
    InText | BeforeTagName | InTagName | InSelfClosingTag
  | BeforeClosingTagName | InClosingTagName | AfterClosingTagName
  | BeforeAttributeName | InAttributeName | AfterAttributeName
  | BeforeAttributeValue | InAttributeValueDq | InAttributeValueSq | InAttributeValueNq
  | BeforeDeclaration | BeforeComment | InDeclaration | InProcessingInstruction
  | InComment nat | InSpecialComment

text \<open>
  The tokenizer's state: the current section \<open>sect\<close> (the code units since
  \<open>sectionStart\<close>), the open tag's name and attributes read so far, the current
  attribute name, and the events emitted.
\<close>

record tok =
  tmode :: tmode
  sect :: jsstring
  tagn :: jsstring
  attrs :: "(jsstring \<times> jsstring) list"
  attrn :: jsstring
  out :: "pevent list"

definition isEndOfTagSection :: "jschar \<Rightarrow> bool" where
  "isEndOfTagSection c \<longleftrightarrow> c = 47 \<or> c = 62 \<or> isWhitespace c"

definition keep :: "tok \<Rightarrow> jschar \<Rightarrow> tok" where
  "keep t c = t\<lparr>sect := sect t @ [c]\<rparr>"

definition emit :: "pevent \<Rightarrow> tok \<Rightarrow> tok" where
  "emit e t = t\<lparr>out := out t @ [e]\<rparr>"

text \<open>\<open>onattribend\<close>: the first occurrence of an attribute name wins.\<close>

definition attribEnd :: "jsstring \<Rightarrow> tok \<Rightarrow> tok" where
  "attribEnd v t =
     (if map_of (attrs t) (attrn t) = None then t\<lparr>attrs := attrs t @ [(attrn t, v)]\<rparr> else t)"

definition stateText :: "tok \<Rightarrow> jschar \<Rightarrow> tok" where
  "stateText t c =
     (if c = 60
      then (if sect t = [] then t else emit (EText (sect t)) t)
             \<lparr>tmode := BeforeTagName, sect := [c]\<rparr>
      else keep t c)"

definition stateBeforeAttributeName :: "tok \<Rightarrow> jschar \<Rightarrow> tok" where
  "stateBeforeAttributeName t c =
     (if c = 62 then (emit (EOpen (tagn t) (attrs t)) t)\<lparr>tmode := InText, sect := []\<rparr>
      else if c = 47 then t\<lparr>tmode := InSelfClosingTag\<rparr>
      else if \<not> isWhitespace c then t\<lparr>tmode := InAttributeName, sect := [c]\<rparr>
      else t)"

definition stateBeforeTagName :: "tok \<Rightarrow> jschar \<Rightarrow> tok" where
  "stateBeforeTagName t c =
     (if c = 33 then t\<lparr>tmode := BeforeDeclaration, sect := []\<rparr>
      else if c = 63 then t\<lparr>tmode := InProcessingInstruction, sect := []\<rparr>
      else if \<not> isEndOfTagSection c then t\<lparr>tmode := InTagName, sect := [c]\<rparr>
      else if c = 47 then (keep t c)\<lparr>tmode := BeforeClosingTagName\<rparr>
      else stateText (t\<lparr>tmode := InText\<rparr>) c)"

definition stateInTagName :: "tok \<Rightarrow> jschar \<Rightarrow> tok" where
  "stateInTagName t c =
     (if isEndOfTagSection c
      then stateBeforeAttributeName
             (t\<lparr>tmode := BeforeAttributeName, tagn := sect t, attrs := [], sect := []\<rparr>) c
      else keep t c)"

definition stateInSelfClosingTag :: "tok \<Rightarrow> jschar \<Rightarrow> tok" where
  "stateInSelfClosingTag t c =
     (if c = 62 then (emit (ESelfClosed (tagn t) (attrs t)) t)\<lparr>tmode := InText, sect := []\<rparr>
      else if \<not> isWhitespace c
      then stateBeforeAttributeName (t\<lparr>tmode := BeforeAttributeName\<rparr>) c
      else t)"

definition stateBeforeClosingTagName :: "tok \<Rightarrow> jschar \<Rightarrow> tok" where
  "stateBeforeClosingTagName t c =
     (if isWhitespace c then keep t c
      else if c = 62 then (keep t c)\<lparr>tmode := InText\<rparr>
      else if c = 47 then t\<lparr>tmode := InSpecialComment, sect := [c]\<rparr>
      else t\<lparr>tmode := InClosingTagName, sect := [c]\<rparr>)"

definition stateAfterClosingTagName :: "tok \<Rightarrow> jschar \<Rightarrow> tok" where
  "stateAfterClosingTagName t c = (if c = 62 then t\<lparr>tmode := InText, sect := []\<rparr> else t)"

definition stateInClosingTagName :: "tok \<Rightarrow> jschar \<Rightarrow> tok" where
  "stateInClosingTagName t c =
     (if c = 62 \<or> isWhitespace c
      then stateAfterClosingTagName
             ((emit (EClose (sect t)) t)\<lparr>tmode := AfterClosingTagName, sect := []\<rparr>) c
      else keep t c)"

definition stateAfterAttributeName :: "tok \<Rightarrow> jschar \<Rightarrow> tok" where
  "stateAfterAttributeName t c =
     (if c = 61 then t\<lparr>tmode := BeforeAttributeValue\<rparr>
      else if c = 47 \<or> c = 62
      then stateBeforeAttributeName ((attribEnd [] t)\<lparr>tmode := BeforeAttributeName\<rparr>) c
      else if \<not> isWhitespace c then (attribEnd [] t)\<lparr>tmode := InAttributeName, sect := [c]\<rparr>
      else t)"

definition stateInAttributeName :: "tok \<Rightarrow> jschar \<Rightarrow> tok" where
  "stateInAttributeName t c =
     (if c = 61 \<or> isEndOfTagSection c
      then stateAfterAttributeName
             (t\<lparr>tmode := AfterAttributeName, attrn := sect t, sect := []\<rparr>) c
      else keep t c)"

definition stateInAttributeValueNoQuotes :: "tok \<Rightarrow> jschar \<Rightarrow> tok" where
  "stateInAttributeValueNoQuotes t c =
     (if isWhitespace c \<or> c = 62
      then stateBeforeAttributeName
             ((attribEnd (sect t) t)\<lparr>tmode := BeforeAttributeName, sect := []\<rparr>) c
      else keep t c)"

definition stateBeforeAttributeValue :: "tok \<Rightarrow> jschar \<Rightarrow> tok" where
  "stateBeforeAttributeValue t c =
     (if c = 34 then t\<lparr>tmode := InAttributeValueDq, sect := []\<rparr>
      else if c = 39 then t\<lparr>tmode := InAttributeValueSq, sect := []\<rparr>
      else if \<not> isWhitespace c
      then stateInAttributeValueNoQuotes (t\<lparr>tmode := InAttributeValueNq, sect := []\<rparr>) c
      else t)"

definition handleInAttributeValue :: "jschar \<Rightarrow> tok \<Rightarrow> jschar \<Rightarrow> tok" where
  "handleInAttributeValue quote t c =
     (if c = quote then (attribEnd (sect t) t)\<lparr>tmode := BeforeAttributeName, sect := []\<rparr>
      else keep t c)"

definition stateInDeclaration :: "tok \<Rightarrow> jschar \<Rightarrow> tok" where
  "stateInDeclaration t c =
     (if c = 62 then (emit (EDirective (33 # sect t)) t)\<lparr>tmode := InText, sect := []\<rparr>
      else keep t c)"

definition stateInProcessingInstruction :: "tok \<Rightarrow> jschar \<Rightarrow> tok" where
  "stateInProcessingInstruction t c =
     (if c = 62 then (emit (EDirective (63 # sect t)) t)\<lparr>tmode := InText, sect := []\<rparr>
      else keep t c)"

definition stateInSpecialComment :: "tok \<Rightarrow> jschar \<Rightarrow> tok" where
  "stateInSpecialComment t c =
     (if c = 62 then (emit (EComment (sect t)) t)\<lparr>tmode := InText, sect := []\<rparr>
      else keep t c)"

text \<open>
  Inside a comment, \<open>k\<close> code units of the end sequence \<open>-->\<close> have been seen.
\<close>

definition stateInComment :: "nat \<Rightarrow> tok \<Rightarrow> jschar \<Rightarrow> tok" where
  "stateInComment k t c =
     (if c = [45, 45, 62] ! k
      then (if k = 2
            then (emit (EComment (take (length (sect t) - 2) (sect t))) t)
                   \<lparr>tmode := InText, sect := []\<rparr>
            else (keep t c)\<lparr>tmode := InComment (k + 1)\<rparr>)
      else if k = 0 then keep t c
      else if c \<noteq> [45, 45, 62] ! (k - 1) then (keep t c)\<lparr>tmode := InComment 0\<rparr>
      else keep t c)"

definition tokStep :: "tok \<Rightarrow> jschar \<Rightarrow> tok" where
  "tokStep t c =
     (case tmode t of
        InText \<Rightarrow> stateText t c
      | BeforeTagName \<Rightarrow> stateBeforeTagName t c
      | InTagName \<Rightarrow> stateInTagName t c
      | InSelfClosingTag \<Rightarrow> stateInSelfClosingTag t c
      | BeforeClosingTagName \<Rightarrow> stateBeforeClosingTagName t c
      | InClosingTagName \<Rightarrow> stateInClosingTagName t c
      | AfterClosingTagName \<Rightarrow> stateAfterClosingTagName t c
      | BeforeAttributeName \<Rightarrow> stateBeforeAttributeName t c
      | InAttributeName \<Rightarrow> stateInAttributeName t c
      | AfterAttributeName \<Rightarrow> stateAfterAttributeName t c
      | BeforeAttributeValue \<Rightarrow> stateBeforeAttributeValue t c
      | InAttributeValueDq \<Rightarrow> handleInAttributeValue 34 t c
      | InAttributeValueSq \<Rightarrow> handleInAttributeValue 39 t c
      | InAttributeValueNq \<Rightarrow> stateInAttributeValueNoQuotes t c
      | BeforeDeclaration \<Rightarrow>
          (keep t c)\<lparr>tmode := (if c = 45 then BeforeComment else InDeclaration)\<rparr>
      | BeforeComment \<Rightarrow>
          (if c = 45 then t\<lparr>tmode := InComment 2, sect := []\<rparr>
           else (keep t c)\<lparr>tmode := InDeclaration\<rparr>)
      | InDeclaration \<Rightarrow> stateInDeclaration t c
      | InProcessingInstruction \<Rightarrow> stateInProcessingInstruction t c
      | InComment k \<Rightarrow> stateInComment k t c
      | InSpecialComment \<Rightarrow> stateInSpecialComment t c)"

definition tokInit :: tok where
  "tokInit = \<lparr>tmode = InText, sect = [], tagn = [], attrs = [], attrn = [], out = []\<rparr>"

text \<open>The end of the input: a pending section outside a tag is text (or a comment).\<close>

definition handleTrailingData :: "tok \<Rightarrow> pevent list" where
  "handleTrailingData t =
     (if sect t = [] then out t
      else case tmode t of
        InText \<Rightarrow> out t @ [EText (sect t)]
      | BeforeTagName \<Rightarrow> out t @ [EText (sect t)]
      | BeforeClosingTagName \<Rightarrow> out t @ [EText (sect t)]
      | BeforeDeclaration \<Rightarrow> out t @ [EText (sect t)]
      | BeforeComment \<Rightarrow> out t @ [EText (sect t)]
      | InDeclaration \<Rightarrow> out t @ [EText (sect t)]
      | InProcessingInstruction \<Rightarrow> out t @ [EText (sect t)]
      | InSpecialComment \<Rightarrow> out t @ [EText (sect t)]
      | InComment k \<Rightarrow> out t @ [EComment (sect t)]
      | _ \<Rightarrow> out t)"

definition tokenize :: "jsstring \<Rightarrow> pevent list" where
  "tokenize s = handleTrailingData (foldl tokStep tokInit s)"

text \<open>
  The tree builder (the parser's stack of open elements and domhandler). A frame is an
  open element: its name, its attributes and the children added so far. In XML mode a
  closing tag closes the innermost open element of that name and everything opened
  inside it, and is ignored when no such element is open. A text event directly after
  a text node extends that node. Parsed elements carry the identity 0 until
  \<open>labelNodes\<close> numbers them.
\<close>

type_synonym frame = "jsstring \<times> (jsstring \<times> jsstring) list \<times> node list"

fun addNode :: "node \<Rightarrow> frame list \<Rightarrow> node list \<Rightarrow> frame list \<times> node list" where
  "addNode n [] rs = ([], rs @ [n])"
| "addNode n ((nm, as, cs) # st) rs = ((nm, as, cs @ [n]) # st, rs)"

fun closeUntil :: "jsstring \<Rightarrow> frame list \<Rightarrow> node list \<Rightarrow> frame list \<times> node list" where
  "closeUntil nm [] rs = ([], rs)"
| "closeUntil nm [(n, as, cs)] rs = ([], rs @ [Element 0 n as cs])"
| "closeUntil nm ((n, as, cs) # (n2, as2, cs2) # st) rs =
     (if n = nm then ((n2, as2, cs2 @ [Element 0 n as cs]) # st, rs)
      else closeUntil nm ((n2, as2, cs2 @ [Element 0 n as cs]) # st) rs)"

fun closeAll :: "frame list \<Rightarrow> node list \<Rightarrow> node list" where
  "closeAll [] rs = rs"
| "closeAll [(n, as, cs)] rs = rs @ [Element 0 n as cs]"
| "closeAll ((n, as, cs) # (n2, as2, cs2) # st) rs =
     closeAll ((n2, as2, cs2 @ [Element 0 n as cs]) # st) rs"

definition appendToLastText :: "jsstring \<Rightarrow> node list \<Rightarrow> node list" where
  "appendToLastText s ns =
     (case rev ns of Text d # r \<Rightarrow> rev r @ [Text (d @ s)] | _ \<Rightarrow> ns @ [Text s])"

text \<open>
  The builder's state: the open elements (innermost first), the finished nodes at the
  root, and whether \<open>lastNode\<close> is a text node.
\<close>

type_synonym bstate = "frame list \<times> node list \<times> bool"

fun ontext :: "jsstring \<Rightarrow> bstate \<Rightarrow> bstate" where
  "ontext s ([], rs, lt) = ([], (if lt then appendToLastText s rs else rs @ [Text s]), True)"
| "ontext s ((n, as, cs) # st, rs, lt) =
     ((n, as, (if lt then appendToLastText s cs else cs @ [Text s])) # st, rs, True)"

fun handleEvent :: "pevent \<Rightarrow> bstate \<Rightarrow> bstate" where
  "handleEvent (EText s) b = ontext s b"
| "handleEvent (EOpen n as) (st, rs, lt) = ((n, as, []) # st, rs, False)"
| "handleEvent (ESelfClosed n as) (st, rs, lt) =
     (case addNode (Element 0 n as []) st rs of (st', rs') \<Rightarrow> (st', rs', False))"
| "handleEvent (EClose n) (st, rs, lt) =
     (if n \<in> set (map fst st)
      then (case closeUntil n st rs of (st', rs') \<Rightarrow> (st', rs', False))
      else (st, rs, lt))"
| "handleEvent (EComment s) (st, rs, lt) =
     (case addNode (Comment s) st rs of (st', rs') \<Rightarrow> (st', rs', False))"
| "handleEvent (EDirective s) (st, rs, lt) =
     (case addNode (Directive s) st rs of (st', rs') \<Rightarrow> (st', rs', False))"

definition build :: "pevent list \<Rightarrow> node list" where
  "build es =
     (case foldl (\<lambda>b e. handleEvent e b) ([], [], False) es of
        (st, rs, lt) \<Rightarrow> closeAll st rs)"

definition parseMarkup :: "jsstring \<Rightarrow> node list" where
  "parseMarkup s = build (tokenize s)"

section \<open>The library's operations on the tree\<close>

text \<open>All elements of a node, itself first, in document order.\<close>

fun elemsOf :: "node \<Rightarrow> node list" where
  "elemsOf (Element i n as cs) = Element i n as cs # concat (map elemsOf cs)"
| "elemsOf _ = []"

definition allElems :: "node list \<Rightarrow> node list" where
  "allElems ns = concat (map elemsOf ns)"

text \<open>\<open>$(n).text()\<close>: the text of the node's descendants, in order.\<close>

fun textContent :: "node \<Rightarrow> jsstring" where
  "textContent (Element i n as cs) = concat (map textContent cs)"
| "textContent (Text s) = s"
| "textContent _ = []"

text \<open>\<open>$(el).attr(k)\<close>.\<close>

definition cheerio_attr :: "node \<Rightarrow> jsstring \<Rightarrow> jsstring option" where
  "cheerio_attr el k = map_of (nodeAttribs el) k"

text \<open>Fresh identities for the elements of parsed nodes, in document order from \<open>k\<close>.\<close>

fun labelNode :: "nat \<Rightarrow> node \<Rightarrow> node \<times> nat"
  and labelNodes :: "nat \<Rightarrow> node list \<Rightarrow> node list \<times> nat" where
  "labelNode k (Element i n as cs) =
     (case labelNodes (Suc k) cs of (cs', k') \<Rightarrow> (Element k n as cs', k'))"
| "labelNode k (Text s) = (Text s, k)"
| "labelNode k (Comment s) = (Comment s, k)"
| "labelNode k (Directive s) = (Directive s, k)"
| "labelNodes k [] = ([], k)"
| "labelNodes k (x # xs) =
     (case labelNode k x of (x', k1) \<Rightarrow>
        (case labelNodes k1 xs of (xs', k2) \<Rightarrow> (x' # xs', k2)))"

text \<open>
  A loaded document: the children of its root, and the next unused identity.
  \<open>cheerio.load(content, { xmlMode: true })\<close> parses and numbers the elements.
\<close>

record dom =
  roots :: "node list"
  fresh :: nat

definition cheerio_load :: "(jsstring \<Rightarrow> node list) \<Rightarrow> jsstring \<Rightarrow> dom" where
  "cheerio_load parse content =
     (case labelNodes 0 (parse content) of (ns, k) \<Rightarrow> \<lparr>roots = ns, fresh = k\<rparr>)"

text \<open>
  The element with identity \<open>i\<close> is replaced by the nodes \<open>f\<close> gives for it; every
  other node stays.
\<close>

fun updNode :: "nat \<Rightarrow> (node \<Rightarrow> node list) \<Rightarrow> node \<Rightarrow> node list" where
  "updNode i f (Element j n as cs) =
     (if i = j then f (Element j n as cs)
      else [Element j n as (concat (map (updNode i f) cs))])"
| "updNode i f x = [x]"

text \<open>
  A manipulation with a markup string: the string is parsed, its elements get fresh
  identities, and \<open>place\<close> puts the new nodes at the element \<open>el\<close>.
\<close>

definition manipulate :: "(jsstring \<Rightarrow> node list) \<Rightarrow> dom \<Rightarrow> node \<Rightarrow> jsstring
    \<Rightarrow> (node \<Rightarrow> node list \<Rightarrow> node list) \<Rightarrow> dom" where
  "manipulate parse d el markup place =
     (case labelNodes (fresh d) (parse markup) of
        (new, k) \<Rightarrow>
          \<lparr>roots = concat (map (updNode (nodeId el) (\<lambda>e. place e new)) (roots d)),
           fresh = k\<rparr>)"

text \<open>\<open>$(el).html(markup)\<close>: the parsed nodes become the element's children.\<close>

definition cheerio_html :: "(jsstring \<Rightarrow> node list) \<Rightarrow> dom \<Rightarrow> node \<Rightarrow> jsstring \<Rightarrow> dom" where
  "cheerio_html parse d el markup =
     manipulate parse d el markup
       (\<lambda>e new. [Element (nodeId e) (nodeName e) (nodeAttribs e) new])"

text \<open>\<open>$(el).append(markup)\<close>: the parsed nodes follow the element's children.\<close>

definition cheerio_append :: "(jsstring \<Rightarrow> node list) \<Rightarrow> dom \<Rightarrow> node \<Rightarrow> jsstring \<Rightarrow> dom" where
  "cheerio_append parse d el markup =
     manipulate parse d el markup
       (\<lambda>e new. [Element (nodeId e) (nodeName e) (nodeAttribs e) (childrenOf e @ new)])"

text \<open>\<open>$(el).after(markup)\<close>: the parsed nodes follow the element among its siblings.\<close>

definition cheerio_after :: "(jsstring \<Rightarrow> node list) \<Rightarrow> dom \<Rightarrow> node \<Rightarrow> jsstring \<Rightarrow> dom" where
  "cheerio_after parse d el markup = manipulate parse d el markup (\<lambda>e new. e # new)"

section \<open>The helpers of translation.ts\<close>

text \<open>
  \<open>BLOCK_SELECTOR = 'p, h1, h2, h3, h4, h5, h6, li, blockquote'\<close>. In XML mode a
  type selector compares tag names as they are written.
\<close>

definition BLOCK_TAGS :: "jsstring list" where
  "BLOCK_TAGS = [js ''p'', js ''h1'', js ''h2'', js ''h3'', js ''h4'', js ''h5'', js ''h6'',
                 js ''li'', js ''blockquote'']"

definition matchesBlock :: "node \<Rightarrow> bool" where
  "matchesBlock n \<longleftrightarrow> isElement n \<and> nodeName n \<in> set BLOCK_TAGS"

text \<open>\<open>$(BLOCK_SELECTOR).toArray()\<close> and \<open>$(el).find(BLOCK_SELECTOR)\<close>.\<close>

definition selectBlocks :: "node list \<Rightarrow> node list" where
  "selectBlocks rs = filter matchesBlock (allElems rs)"

definition findBlocks :: "node \<Rightarrow> node list" where
  "findBlocks el = filter matchesBlock (allElems (childrenOf el))"

definition selectLeafBlocks :: "node list \<Rightarrow> node list" where
  "selectLeafBlocks rs =
     (let all = selectBlocks rs
      in filter (\<lambda>el.
           let cls = (case cheerio_attr el (js ''class'') of None \<Rightarrow> [] | Some v \<Rightarrow> v)
           in if markerTest cls then False
              else length (findBlocks el) = 0) all)"

text \<open>
  \<open>toLowerCase()\<close> on the ASCII letters and on the Kelvin sign, the code units whose
  lower case is an ASCII letter; any other code unit is kept, and its lower case is
  not ASCII either, so comparisons with the ASCII tag names below come out as in the
  program.
\<close>

definition toLowerCase :: "jsstring \<Rightarrow> jsstring" where
  "toLowerCase s =
     map (\<lambda>c. if 65 \<le> c \<and> c \<le> 90 then c + 32 else if c = 8490 then 107 else c) s"

definition tagName :: "node \<Rightarrow> jsstring" where
  "tagName n = toLowerCase (toLowerCase (nodeName n))"

text \<open>\<open>/^h[1-6]$/.test(t)\<close>.\<close>

definition isHeadingName :: "jsstring \<Rightarrow> bool" where
  "isHeadingName t \<longleftrightarrow> (case t of [h, d] \<Rightarrow> h = 104 \<and> 49 \<le> d \<and> d \<le> 54 | _ \<Rightarrow> False)"

definition DIV_OPEN :: jsstring where
  "DIV_OPEN = js ''<div class=\"translated-bilingual\">''"

definition P_OPEN :: jsstring where
  "P_OPEN = js ''<p class=\"translated-bilingual\">''"

definition insertBilingual :: "(jsstring \<Rightarrow> node list) \<Rightarrow> dom \<Rightarrow> node \<Rightarrow> jsstring \<Rightarrow> dom" where
  "insertBilingual parse d nd translated =
     (let t = tagName nd; safe = stripBlockTags translated in
      if t = js ''li''
      then cheerio_append parse d nd (DIV_OPEN @ safe @ js ''</div>'')
      else if t = js ''blockquote''
      then cheerio_append parse d nd (P_OPEN @ safe @ js ''</p>'')
      else if isHeadingName t
      then cheerio_after parse d nd (DIV_OPEN @ safe @ js ''</div>'')
      else cheerio_after parse d nd (P_OPEN @ safe @ js ''</p>''))"

definition replaceBlock :: "(jsstring \<Rightarrow> node list) \<Rightarrow> dom \<Rightarrow> node \<Rightarrow> jsstring \<Rightarrow> dom" where
  "replaceBlock parse d nd translated = cheerio_html parse d nd (stripBlockTags translated)"

text \<open>
  For the statements below: the element of a tree with a given identity, the nodes
  that follow it among its siblings, and whether an element bears a class name.
\<close>

fun findElem :: "nat \<Rightarrow> node \<Rightarrow> node option"
  and findIn :: "nat \<Rightarrow> node list \<Rightarrow> node option" where
  "findElem i (Element j n as cs) =
     (if i = j then Some (Element j n as cs) else findIn i cs)"
| "findElem i (Text s) = None"
| "findElem i (Comment s) = None"
| "findElem i (Directive s) = None"
| "findIn i [] = None"
| "findIn i (x # xs) = (case findElem i x of Some e \<Rightarrow> Some e | None \<Rightarrow> findIn i xs)"

fun followers :: "nat \<Rightarrow> node \<Rightarrow> node list option"
  and followersIn :: "nat \<Rightarrow> node list \<Rightarrow> node list option" where
  "followers i (Element j n as cs) = followersIn i cs"
| "followers i (Text s) = None"
| "followers i (Comment s) = None"
| "followers i (Directive s) = None"
| "followersIn i [] = None"
| "followersIn i (x # xs) =
     (if isElement x \<and> nodeId x = i then Some xs
      else case followers i x of Some r \<Rightarrow> Some r | None \<Rightarrow> followersIn i xs)"

definition hasClass :: "jsstring \<Rightarrow> node \<Rightarrow> bool" where
  "hasClass nm el \<longleftrightarrow>
     (case cheerio_attr el (js ''class'') of None \<Rightarrow> False | Some v \<Rightarrow> nm \<in> set (classTokens v))"

section \<open>translateEpub\<close>

text \<open>
  The archive is the set of file entries of the loaded zip, by path. The generation
  service is an argument: its answer to the \<open>n\<close>-th request is a rejection (the
  awaited call throws: a transport error, an abort, a response that fails the schema),
  a parsed array of strings, or a completion without a parsed message. What the job does
  to the outside is recorded, in order, in \<open>trace\<close>.
\<close>

type_synonym archive = "jsstring \<Rightarrow> jsstring option"

datatype mode = Replace | Bilingual

datatype role = System | User

record request =
  model :: jsstring
  messages :: "(role \<times> jsstring) list"

datatype response = Throws jsstring | Parsed "jsstring list" | Unparsed

datatype error =
    ContainerNotFound | OpfPathNotFound | OpfFileNotFound jsstring
  | ServiceError jsstring | LoadExpectsString

record progress =
  currentFile :: jsstring
  fileIndex :: nat
  totalFiles :: nat
  status :: jsstring
  translatedBlob :: archive
  htmlContent :: "jsstring option"

datatype effect =
    SetStatus jsstring
  | Request request
  | ZipWrite jsstring jsstring
  | OnProgress progress
  | PauseGate

record params =
  chunkSize :: jsnum
  translationMode :: mode
  targetLanguage :: jsstring
  modelName :: jsstring
  onProgress :: bool

record job =
  zipEntries :: archive
  trace :: "effect list"
  calls :: nat

definition SYSTEM_PROMPT :: jsstring where
  "SYSTEM_PROMPT = js ''You are a book translator.''"

definition perform :: "effect \<Rightarrow> 'a job_scheme \<Rightarrow> 'a job_scheme" where
  "perform e st = st\<lparr>trace := trace st @ [e]\<rparr>"

text \<open>A number in a template string.\<close>

fun decimal :: "nat \<Rightarrow> jsstring" where
  "decimal n =
     (if n < 10 then [48 + of_nat n] else decimal (n div 10) @ [48 + of_nat (n mod 10)])"

declare decimal.simps [simp del]

fun joinWith :: "jsstring \<Rightarrow> jsstring list \<Rightarrow> jsstring" where
  "joinWith sep [] = []"
| "joinWith sep [x] = x"
| "joinWith sep (x # y # ys) = x @ sep @ joinWith sep (y # ys)"

text \<open>Elements with the name of their parent element, for \<open>$('parent > child')\<close>.\<close>

fun withParent :: "jsstring option \<Rightarrow> node \<Rightarrow> (jsstring option \<times> node) list" where
  "withParent p (Element i n as cs) =
     (p, Element i n as cs) # concat (map (withParent (Some n)) cs)"
| "withParent p _ = []"

definition selectTag :: "jsstring \<Rightarrow> node list \<Rightarrow> node list" where
  "selectTag nm rs = filter (\<lambda>el. nodeName el = nm) (allElems rs)"

definition selectChild :: "jsstring \<Rightarrow> jsstring \<Rightarrow> node list \<Rightarrow> node list" where
  "selectChild pn cn rs =
     map snd (filter (\<lambda>(p, el). p = Some pn \<and> nodeName el = cn)
                (concat (map (withParent None) rs)))"

definition CONTAINER_PATH :: jsstring where
  "CONTAINER_PATH = js ''META-INF/container.xml''"

text \<open>\<open>$container('rootfile').attr('full-path')\<close>.\<close>

definition rootfilePath :: "(jsstring \<Rightarrow> node list) \<Rightarrow> jsstring \<Rightarrow> jsstring option" where
  "rootfilePath parse containerFile =
     (case selectTag (js ''rootfile'') (roots (cheerio_load parse containerFile)) of
        [] \<Rightarrow> None
      | el # _ \<Rightarrow> cheerio_attr el (js ''full-path''))"

definition opfDirOf :: "jsstring \<Rightarrow> jsstring" where
  "opfDirOf opfFilePath =
     (if 47 \<in> set opfFilePath
      then rev (tl (dropWhile (\<lambda>c. c \<noteq> 47) (rev opfFilePath))) else [])"

definition manifestOf :: "jsstring \<Rightarrow> node list \<Rightarrow> (jsstring \<Rightarrow> jsstring option)" where
  "manifestOf opfDir opf =
     foldl (\<lambda>m el.
        case (cheerio_attr el (js ''id''), cheerio_attr el (js ''href'')) of
          (Some i, Some href) \<Rightarrow>
            if i \<noteq> [] \<and> href \<noteq> []
            then m(i \<mapsto> (if opfDir \<noteq> [] then opfDir @ [47] @ href else href))
            else m
        | _ \<Rightarrow> m)
       Map.empty (selectChild (js ''manifest'') (js ''item'') opf)"

definition spineOf :: "(jsstring \<Rightarrow> jsstring option) \<Rightarrow> node list \<Rightarrow> jsstring list" where
  "spineOf manifest opf =
     filter (\<lambda>p. p \<noteq> [])
       (List.map_filter
          (\<lambda>el. manifest (case cheerio_attr el (js ''idref'') of None \<Rightarrow> [] | Some v \<Rightarrow> v))
          (selectChild (js ''spine'') (js ''itemref'') opf))"

text \<open>
  The three checks before the loop; \<open>!x\<close> holds of an absent entry and of an empty
  string alike.
\<close>

definition resolveSpine :: "(jsstring \<Rightarrow> node list) \<Rightarrow> archive \<Rightarrow> error + jsstring list" where
  "resolveSpine parse z =
     (case z CONTAINER_PATH of
        None \<Rightarrow> Inl ContainerNotFound
      | Some containerFile \<Rightarrow>
          if containerFile = [] then Inl ContainerNotFound
          else (case rootfilePath parse containerFile of
                  None \<Rightarrow> Inl OpfPathNotFound
                | Some opfFilePath \<Rightarrow>
                    if opfFilePath = [] then Inl OpfPathNotFound
                    else (case z opfFilePath of
                            None \<Rightarrow> Inl (OpfFileNotFound opfFilePath)
                          | Some opfFile \<Rightarrow>
                              if opfFile = [] then Inl (OpfFileNotFound opfFilePath)
                              else (let opf = roots (cheerio_load parse opfFile);
                                        manifest = manifestOf (opfDirOf opfFilePath) opf
                                    in Inr (spineOf manifest opf)))))"

text \<open>\<open>translatedParagraphs[j] ?? ''\<close>.\<close>

definition translationAt :: "jsstring list \<Rightarrow> nat \<Rightarrow> jsstring" where
  "translationAt translatedParagraphs j =
     (if j < length translatedParagraphs then translatedParagraphs ! j else [])"

definition applyOne :: "(jsstring \<Rightarrow> node list) \<Rightarrow> mode \<Rightarrow> dom \<Rightarrow> node \<Rightarrow> jsstring \<Rightarrow> dom" where
  "applyOne parse m d nd t =
     (if m = Replace then replaceBlock parse d nd t else insertBilingual parse d nd t)"

text \<open>\<open>chunk.nodes.forEach((node, j) => ...)\<close>, from index \<open>j\<close> on.\<close>

fun applyFrom :: "(jsstring \<Rightarrow> node list) \<Rightarrow> mode \<Rightarrow> jsstring list \<Rightarrow> nat \<Rightarrow> node list
    \<Rightarrow> dom \<Rightarrow> dom" where
  "applyFrom parse m translatedParagraphs j [] d = d"
| "applyFrom parse m translatedParagraphs j (nd # nds) d =
     applyFrom parse m translatedParagraphs (Suc j) nds
       (applyOne parse m d nd (translationAt translatedParagraphs j))"

definition applyChunk :: "(jsstring \<Rightarrow> node list) \<Rightarrow> mode \<Rightarrow> node chunk \<Rightarrow> jsstring list
    \<Rightarrow> dom \<Rightarrow> dom" where
  "applyChunk parse m c translatedParagraphs d =
     applyFrom parse m translatedParagraphs 0 (nodes c) d"

text \<open>The messages of the request for chunk \<open>i\<close>: the context turn, if any, then the texts.\<close>

definition chunkMessages :: "params \<Rightarrow> node chunk list \<Rightarrow> nat \<Rightarrow> (role \<times> jsstring) list" where
  "chunkMessages ps chunks i =
     (let c = chunks ! i;
          originalTexts = joinWith [10, 10] (texts c);
          prevTexts = (if i > 0 then joinWith [10, 10] (texts (chunks ! (i - 1))) else []);
          nextTexts = (if i + 1 < length chunks
                       then joinWith [10, 10] (texts (chunks ! (i + 1))) else []);
          contextTexts = joinWith [10, 10] (filter (\<lambda>s. s \<noteq> []) [prevTexts, nextTexts]);
          contextContent =
            (if contextTexts \<noteq> []
             then js ''This is context:'' @ [10, 96, 96, 96, 10] @ contextTexts
                  @ [10, 96, 96, 96, 10, 10] @ js ''Translate following text''
             else []);
          userContent =
            js ''Return JSON that matches the schema and make sure ''
            @ js ''\"translation_paragraphs\" has exactly ''
            @ decimal (length (texts c))
            @ js '' items (one per input paragraph, keep order). ''
            @ js ''Each item MUST be plain text without any HTML tags. ''
            @ [10, 96, 96, 96, 10] @ originalTexts @ [10, 96, 96, 96, 10, 10]
            @ targetLanguage ps @ [10, 10]
      in [(System, SYSTEM_PROMPT)]
         @ (if contextContent \<noteq> [] then [(User, contextContent)] else [])
         @ [(User, userContent)])"

text \<open>
  The loop over the chunks of one document, from chunk \<open>i\<close> with \<open>remaining\<close>
  chunks to go. A rejected request ends the job with its error.
\<close>

fun translateChunks :: "params \<Rightarrow> (jsstring \<Rightarrow> node list) \<Rightarrow> (nat \<Rightarrow> request \<Rightarrow> response)
    \<Rightarrow> jsstring \<Rightarrow> node chunk list \<Rightarrow> nat \<Rightarrow> nat \<Rightarrow> dom \<Rightarrow> job
    \<Rightarrow> error option \<times> dom \<times> job" where
  "translateChunks ps parse svc filePath chunks i 0 d st = (None, d, st)"
| "translateChunks ps parse svc filePath chunks i (Suc remaining) d st =
     (let st1 = perform (SetStatus (js ''Translating chunk '' @ decimal (i + 1) @ [47]
                   @ decimal (length chunks) @ js '' of '' @ filePath @ js ''...'')) st;
          req = \<lparr>model = modelName ps, messages = chunkMessages ps chunks i\<rparr>;
          st2 = (perform (Request req) st1)\<lparr>calls := Suc (calls st1)\<rparr>
      in case svc (calls st1) req of
           Throws e \<Rightarrow> (Some (ServiceError e), d, st2)
         | Parsed ts \<Rightarrow>
             translateChunks ps parse svc filePath chunks (Suc i) remaining
               (applyChunk parse (translationMode ps) (chunks ! i) ts d) st2
         | Unparsed \<Rightarrow>
             translateChunks ps parse svc filePath chunks (Suc i) remaining
               (applyChunk parse (translationMode ps) (chunks ! i) [] d) st2)"

fun indexOf :: "'a \<Rightarrow> 'a list \<Rightarrow> nat \<Rightarrow> int" where
  "indexOf x [] k = -1"
| "indexOf x (y # ys) k = (if x = y then int k else indexOf x ys (Suc k))"

text \<open>\<open>$content('body').html()\<close>, with the library's serializer as an argument.\<close>

definition bodyHtml :: "(node list \<Rightarrow> jsstring) \<Rightarrow> node list \<Rightarrow> jsstring option" where
  "bodyHtml render rs =
     (case selectTag (js ''body'') rs of [] \<Rightarrow> None | el # _ \<Rightarrow> Some (render (childrenOf el)))"

text \<open>
  One iteration of the loop over the spine. The three \<open>continue\<close> statements leave
  the entry as it is.
\<close>

definition processFile :: "params \<Rightarrow> (jsstring \<Rightarrow> node list) \<Rightarrow> (node list \<Rightarrow> jsstring)
    \<Rightarrow> (nat \<Rightarrow> request \<Rightarrow> response) \<Rightarrow> jsstring list \<Rightarrow> jsstring \<Rightarrow> job
    \<Rightarrow> error option \<times> job" where
  "processFile ps parse render svc spine filePath st0 =
     (let st = perform (SetStatus (js ''Processing: '' @ filePath)) st0 in
      case zipEntries st filePath of
        None \<Rightarrow> (None, st)
      | Some fileContent \<Rightarrow>
          if fileContent = [] then (None, st)
          else
            (let content = cheerio_load parse fileContent;
                 leafNodes = selectLeafBlocks (roots content)
             in if length leafNodes = 0 then (None, st)
                else
                  (let leafTexts = map (\<lambda>n. normalizeText (textContent n)) leafNodes;
                       filtered = map (\<lambda>(n, t). \<lparr>node = n, btext = t\<rparr>)
                                    (filter (\<lambda>(n, t). length t > 0)
                                       (List.zip leafNodes leafTexts))
                   in if length filtered = 0 then (None, st)
                      else
                        (let chunks = chunkBlocks MAX_CHARS_PER_CHUNK
                                        (MAX_PARAS_PER_CHUNK (chunkSize ps)) filtered
                         in case translateChunks ps parse svc filePath chunks 0
                                   (length chunks) content st of
                              (Some e, d, st1) \<Rightarrow> (Some e, st1)
                            | (None, d, st1) \<Rightarrow>
                                (let st2 = (perform (ZipWrite filePath (render (roots d))) st1)
                                             \<lparr>zipEntries :=
                                                (zipEntries st1)(filePath \<mapsto> render (roots d))\<rparr>;
                                     st3 = (if onProgress ps
                                            then perform (OnProgress
                                                   \<lparr>currentFile = filePath,
                                                    fileIndex = nat (indexOf filePath spine 0 + 1),
                                                    totalFiles = length spine,
                                                    status = js ''Processed '' @ filePath,
                                                    translatedBlob = zipEntries st2,
                                                    htmlContent = bodyHtml render (roots d)\<rparr>) st2
                                            else st2)
                                 in (None, st3))))))"

fun processSpine :: "params \<Rightarrow> (jsstring \<Rightarrow> node list) \<Rightarrow> (node list \<Rightarrow> jsstring)
    \<Rightarrow> (nat \<Rightarrow> request \<Rightarrow> response) \<Rightarrow> jsstring list \<Rightarrow> jsstring list \<Rightarrow> job
    \<Rightarrow> error option \<times> job" where
  "processSpine ps parse render svc spine [] st = (None, st)"
| "processSpine ps parse render svc spine (filePath # rest) st =
     (case processFile ps parse render svc spine filePath st of
        (Some e, st1) \<Rightarrow> (Some e, st1)
      | (None, st1) \<Rightarrow> processSpine ps parse render svc spine rest st1)"

text \<open>
  The job on a loaded archive: the error it throws, if any, and the final state. The
  archive it returns on success is \<open>zipEntries\<close> of that state.
\<close>

definition translateEpub :: "params \<Rightarrow> (jsstring \<Rightarrow> node list) \<Rightarrow> (node list \<Rightarrow> jsstring)
    \<Rightarrow> (nat \<Rightarrow> request \<Rightarrow> response) \<Rightarrow> archive \<Rightarrow> error option \<times> job" where
  "translateEpub ps parse render svc epubFile =
     (let st = perform (SetStatus (js ''Unpacking EPUB...''))
                 (perform (SetStatus (js ''Initializing...''))
                    \<lparr>zipEntries = epubFile, trace = [], calls = 0\<rparr>)
      in case resolveSpine parse (zipEntries st) of
           Inl e \<Rightarrow> (Some e, st)
         | Inr spine \<Rightarrow> processSpine ps parse render svc spine spine st)"

text \<open>
  The status texts of a run, in order: those passed to \<open>setStatus\<close> and those of the
  progress snapshots.
\<close>

fun statusOf :: "effect \<Rightarrow> jsstring list" where
  "statusOf (SetStatus s) = [s]"
| "statusOf (OnProgress p) = [status p]"
| "statusOf _ = []"

definition statuses :: "effect list \<Rightarrow> jsstring list" where
  "statuses tr = concat (map statusOf tr)"

text \<open>
  The serializer for the examples, as \<open>$content.html({ xmlMode: true })\<close> writes a tree:
  an element without children is written as a self-closing tag. Text and attribute
  values are written as they are (no escaping).
\<close>

fun serialize :: "node \<Rightarrow> jsstring" where
  "serialize (Element i n as cs) =
     [60] @ n @ concat (map (\<lambda>(k, v). [32] @ k @ [61, 34] @ v @ [34]) as)
     @ (if cs = [] then [47, 62]
        else [62] @ concat (map serialize cs) @ [60, 47] @ n @ [62])"
| "serialize (Text s) = s"
| "serialize (Comment s) = js ''<!--'' @ s @ js ''-->''"
| "serialize (Directive s) = [60] @ s @ [62]"

definition renderXml :: "node list \<Rightarrow> jsstring" where
  "renderXml ns = concat (map serialize ns)"

text \<open>Sample inputs: five short blocks, and the three paragraphs of scenario 1.\<close>

definition fiveBlocks :: "nat block list" where
  "fiveBlocks =
     [\<lparr>node = 1, btext = js ''abc''\<rparr>,
      \<lparr>node = 2, btext = js ''0123456789abc''\<rparr>,
      \<lparr>node = 3, btext = js ''ab''\<rparr>,
      \<lparr>node = 4, btext = js ''cd''\<rparr>,
      \<lparr>node = 5, btext = js ''ef''\<rparr>]"

definition scenario1 :: "nat block list" where
  "scenario1 =
     [\<lparr>node = 1, btext = replicate 10 97\<rparr>,
      \<lparr>node = 2, btext = replicate 4000 97\<rparr>,
      \<lparr>node = 3, btext = replicate 50 97\<rparr>]"

definition sampleDoc :: dom where
  "sampleDoc = cheerio_load parseMarkup
     (js ''<body><h1>T</h1><ul><li>a</li></ul><blockquote>q</blockquote><p>x</p><div><p class=\"note translated-bilingual\">y</p></div></body>'')"

text \<open>The state of a job that has reported its first two statuses and done nothing else.\<close>

definition started :: "archive \<Rightarrow> job" where
  "started z = \<lparr>zipEntries = z,
               trace = [SetStatus (js ''Initializing...''), SetStatus (js ''Unpacking EPUB...'')],
               calls = 0\<rparr>"

text \<open>Sample parameters and archives.\<close>

definition params0 :: params where
  "params0 = \<lparr>chunkSize = Fin 0, translationMode = Replace, targetLanguage = js ''French'',
              modelName = js ''m'', onProgress = True\<rparr>"

definition noRootfileBook :: archive where
  "noRootfileBook = [CONTAINER_PATH \<mapsto> js ''<container><rootfile/></container>'']"

definition noOpfBook :: archive where
  "noOpfBook =
     [CONTAINER_PATH \<mapsto> js ''<container><rootfile full-path=\"c.opf\"/></container>'']"

text \<open>
  The tokenizer's state after the opening tag of an inserted translation node, and the
  paragraph with identity 5 of the sample document.
\<close>

definition afterOpen :: "jsstring \<Rightarrow> tok" where
  "afterOpen tg = \<lparr>tmode = InText, sect = [], tagn = tg, attrs = [(js ''class'', MARKER)],
                   attrn = js ''class'', out = [EOpen tg [(js ''class'', MARKER)]]\<rparr>"

definition para5 :: node where
  "para5 = Element 5 (js ''p'') [] [Text (js ''x'')]"

text \<open>
  The node that insertBilingual inserts for a stripped translation without markup: an
  element with the marker class, its body the text (empty for the empty string).
\<close>

definition artifact :: "nat \<Rightarrow> jsstring \<Rightarrow> jsstring \<Rightarrow> node" where
  "artifact k tg s = Element k tg [(js ''class'', MARKER)] (if s = [] then [] else [Text s])"

text \<open>
  A book of one document with two paragraphs, and two services: one answers every
  request with two translations, the other with one.
\<close>

definition twoParagraphs :: archive where
  "twoParagraphs =
     [CONTAINER_PATH \<mapsto> js ''<container><rootfile full-path=\"c.opf\"/></container>'',
      js ''c.opf'' \<mapsto> js ''<package><manifest><item id=\"a\" href=\"a.html\"/></manifest><spine><itemref idref=\"a\"/></spine></package>'',
      js ''a.html'' \<mapsto> js ''<body><p>Hi</p><p>Yo</p></body>'']"

definition fullService :: "nat \<Rightarrow> request \<Rightarrow> response" where
  "fullService n r = Parsed [js ''Salut'', js ''Ohe'']"

definition shortService :: "nat \<Rightarrow> request \<Rightarrow> response" where
  "shortService n r = Parsed [js ''Salut'']"

section \<open>The older translateEpub, with the pause gate\<close>

text \<open>
  The version of the job that takes \<open>getPausePromise\<close> works on every \<open>p\<close> element
  and slices the paragraphs by \<open>chunkSize\<close>. Its calls into the library for a content
  document are arguments here (the program reads live nodes between mutations, and
  nothing stated below depends on what the calls return): the document type \<open>'d\<close>
  and the node type \<open>'n\<close> are the library's.
\<close>

record ('d, 'n) cheerio =
  c_load :: "jsstring \<Rightarrow> 'd"
  c_select :: "'d \<Rightarrow> 'n list"
  c_text :: "'d \<Rightarrow> 'n \<Rightarrow> jsstring"
  c_html :: "'d \<Rightarrow> 'n \<Rightarrow> jsstring \<Rightarrow> 'd"
  c_after :: "'d \<Rightarrow> 'n \<Rightarrow> jsstring \<Rightarrow> 'd"
  c_render :: "'d \<Rightarrow> jsstring"
  c_body :: "'d \<Rightarrow> jsstring option"

record pausable = params +
  getPausePromise :: bool

text \<open>
  The state within one iteration of the loop over the spine: \<open>trace\<close> holds the
  effects of the iteration, \<open>gates\<close> counts the pause promises awaited so far.
\<close>

record job1 = job +
  gates :: nat

datatype outcome = Completed | Failed error | Diverged | Suspended

text \<open>
  Arithmetic of the loop \<open>for (let i = 0; i < paragraphs.length; i += chunkSize)\<close>:
  the comparison with a length, the sum (exact on finite values: the rounding of a
  double sum is not modelled) and \<open>slice\<close>, whose bounds are truncated and clamped.
\<close>

fun ltLength :: "jsnum \<Rightarrow> nat \<Rightarrow> bool" where
  "ltLength (Fin r) n = (r < of_nat n)"
| "ltLength PosInf n = False"
| "ltLength NegInf n = True"
| "ltLength NaN n = False"

fun jsAdd :: "jsnum \<Rightarrow> jsnum \<Rightarrow> jsnum" where
  "jsAdd (Fin a) (Fin b) = Fin (a + b)"
| "jsAdd NaN y = NaN"
| "jsAdd x NaN = NaN"
| "jsAdd PosInf NegInf = NaN"
| "jsAdd NegInf PosInf = NaN"
| "jsAdd PosInf y = PosInf"
| "jsAdd NegInf y = NegInf"
| "jsAdd x PosInf = PosInf"
| "jsAdd x NegInf = NegInf"

fun relIndex :: "jsnum \<Rightarrow> nat \<Rightarrow> nat" where
  "relIndex (Fin r) len =
     (let k = (if 0 \<le> r then \<lfloor>r\<rfloor> else \<lceil>r\<rceil>)
      in if k < 0 then nat (max (int len + k) 0) else min (nat k) len)"
| "relIndex PosInf len = len"
| "relIndex NegInf len = 0"
| "relIndex NaN len = 0"

definition jsSlice :: "jsnum \<Rightarrow> jsnum \<Rightarrow> 'a list \<Rightarrow> 'a list" where
  "jsSlice start fin xs =
     (let k = relIndex start (length xs); final = relIndex fin (length xs)
      in take (final - k) (drop k xs))"

text \<open>The slicing loop; it does not return for a \<open>chunkSize\<close> that never reaches the length.\<close>

partial_function (option) sliceLoop :: "jsnum \<Rightarrow> jsnum \<Rightarrow> 'a list \<Rightarrow> 'a list list
    \<Rightarrow> 'a list list option" where
  "sliceLoop sz i paragraphs chunks =
     (if ltLength i (length paragraphs)
      then sliceLoop sz (jsAdd i sz) paragraphs (chunks @ [jsSlice i (jsAdd i sz) paragraphs])
      else Some chunks)"

text \<open>\<open>/&#xa0;/\<close> at the start of \<open>xs\<close>.\<close>

definition xa0Match :: "jsstring \<Rightarrow> nat" where
  "xa0Match xs = (if take 6 xs = js ''&#xa0;'' then 6 else 0)"

text \<open>\<open>chunk.forEach((p, j) => ...)\<close> of the older version, from index \<open>j\<close> on.\<close>

fun applyFrom1 :: "('d, 'n) cheerio \<Rightarrow> mode \<Rightarrow> jsstring list \<Rightarrow> nat \<Rightarrow> 'n list \<Rightarrow> 'd \<Rightarrow> 'd" where
  "applyFrom1 lib m translatedParagraphs j [] d = d"
| "applyFrom1 lib m translatedParagraphs j (p # ps) d =
     applyFrom1 lib m translatedParagraphs (Suc j) ps
       (let translatedHtml = translationAt translatedParagraphs j
        in if m = Replace then c_html lib d p translatedHtml
           else c_after lib d p (P_OPEN @ translatedHtml @ js ''</p>''))"

fun translateChunks1 :: "pausable \<Rightarrow> ('d, 'n) cheerio \<Rightarrow> (nat \<Rightarrow> request \<Rightarrow> response)
    \<Rightarrow> jsstring \<Rightarrow> nat \<Rightarrow> nat \<Rightarrow> 'n list list \<Rightarrow> 'd \<Rightarrow> job1
    \<Rightarrow> error option \<times> 'd \<times> job1" where
  "translateChunks1 ps lib svc filePath count i [] d st = (None, d, st)"
| "translateChunks1 ps lib svc filePath count i (c # rest) d st =
     (let st1 = perform (SetStatus (js ''Translating chunk '' @ decimal (i + 1) @ [47]
                   @ decimal count @ js '' of '' @ filePath @ js ''...'')) st;
          originalTexts = replaceAll xa0Match [32] 0
                            (joinWith [10, 10] (map (c_text lib d) c));
          userContent = [96, 96, 96, 10] @ originalTexts @ [10, 10, 96, 96, 96, 10, 10]
                        @ targetLanguage ps;
          req = \<lparr>model = modelName ps,
                 messages = [(System, SYSTEM_PROMPT), (User, userContent)]\<rparr>;
          st2 = (perform (Request req) st1)\<lparr>calls := Suc (calls st1)\<rparr>
      in case svc (calls st1) req of
           Throws e \<Rightarrow> (Some (ServiceError e), d, st2)
         | Parsed ts \<Rightarrow>
             translateChunks1 ps lib svc filePath count (Suc i) rest
               (applyFrom1 lib (translationMode ps) ts 0 c d) st2
         | Unparsed \<Rightarrow>
             translateChunks1 ps lib svc filePath count (Suc i) rest
               (applyFrom1 lib (translationMode ps) [] 0 c d) st2)"

text \<open>
  One iteration of the older loop. \<open>cheerio.load\<close> throws on an absent entry; a
  document without paragraphs is skipped by \<open>continue\<close>; after the write-back and the
  progress snapshot the pause promise, if any, is awaited: \<open>resumed k\<close> tells whether
  the \<open>k\<close>-th awaited promise is ever resolved.
\<close>

definition processFile1 :: "pausable \<Rightarrow> ('d, 'n) cheerio \<Rightarrow> (nat \<Rightarrow> request \<Rightarrow> response)
    \<Rightarrow> (nat \<Rightarrow> bool) \<Rightarrow> jsstring list \<Rightarrow> jsstring \<Rightarrow> job1 \<Rightarrow> outcome option \<times> job1" where
  "processFile1 ps lib svc resumed spine filePath st0 =
     (let st = perform (SetStatus (js ''Processing: '' @ filePath)) st0 in
      case zipEntries st filePath of
        None \<Rightarrow> (Some (Failed LoadExpectsString), st)
      | Some fileContent \<Rightarrow>
          (let content = c_load lib fileContent;
               paragraphs = c_select lib content
           in if length paragraphs = 0 then (None, st)
              else
                (case sliceLoop (chunkSize ps) (Fin 0) paragraphs [] of
                   None \<Rightarrow> (Some Diverged, st)
                 | Some chunks \<Rightarrow>
                     (case translateChunks1 ps lib svc filePath (length chunks) 0 chunks
                             content st of
                        (Some e, d, st1) \<Rightarrow> (Some (Failed e), st1)
                      | (None, d, st1) \<Rightarrow>
                          (let st2 = (perform (ZipWrite filePath (c_render lib d)) st1)
                                       \<lparr>zipEntries :=
                                          (zipEntries st1)(filePath \<mapsto> c_render lib d)\<rparr>;
                               st3 = (if onProgress ps
                                      then perform (OnProgress
                                             \<lparr>currentFile = filePath,
                                              fileIndex = nat (indexOf filePath spine 0 + 1),
                                              totalFiles = length spine,
                                              status = js ''Processed '' @ filePath,
                                              translatedBlob = zipEntries st2,
                                              htmlContent = c_body lib d\<rparr>) st2
                                      else st2)
                           in if getPausePromise ps
                              then (if resumed (gates st3) then None else Some Suspended,
                                    (perform PauseGate st3)\<lparr>gates := Suc (gates st3)\<rparr>)
                              else (None, st3))))))"

text \<open>
  The loop over the spine. Each iteration starts with an empty \<open>trace\<close>; the traces
  of the iterations are collected in order.
\<close>

fun processSpine1 :: "pausable \<Rightarrow> ('d, 'n) cheerio \<Rightarrow> (nat \<Rightarrow> request \<Rightarrow> response)
    \<Rightarrow> (nat \<Rightarrow> bool) \<Rightarrow> jsstring list \<Rightarrow> jsstring list \<Rightarrow> job1 \<Rightarrow> effect list list
    \<Rightarrow> outcome \<times> job1 \<times> effect list list" where
  "processSpine1 ps lib svc resumed spine [] st segs = (Completed, st, segs)"
| "processSpine1 ps lib svc resumed spine (filePath # rest) st segs =
     (case processFile1 ps lib svc resumed spine filePath (st\<lparr>trace := []\<rparr>) of
        (Some oc, st1) \<Rightarrow> (oc, st1, segs @ [trace st1])
      | (None, st1) \<Rightarrow> processSpine1 ps lib svc resumed spine rest st1 (segs @ [trace st1]))"

text \<open>
  The older job: its outcome, the final archive, and the effects of each iteration
  of the loop over the spine (after the two initial status reports).
\<close>

definition translateEpub1 :: "pausable \<Rightarrow> (jsstring \<Rightarrow> node list) \<Rightarrow> ('d, 'n) cheerio
    \<Rightarrow> (nat \<Rightarrow> request \<Rightarrow> response) \<Rightarrow> (nat \<Rightarrow> bool) \<Rightarrow> archive
    \<Rightarrow> outcome \<times> archive \<times> effect list list" where
  "translateEpub1 ps parse lib svc resumed epubFile =
     (case resolveSpine parse epubFile of
        Inl e \<Rightarrow> (Failed e, epubFile, [])
      | Inr spine \<Rightarrow>
          (case processSpine1 ps lib svc resumed spine spine
                  \<lparr>zipEntries = epubFile, trace = [], calls = 0, gates = 0\<rparr> [] of
             (oc, st, segs) \<Rightarrow> (oc, zipEntries st, segs)))"

text \<open>The archive that the write-backs among some effects leave.\<close>

fun replay :: "effect list \<Rightarrow> archive \<Rightarrow> archive" where
  "replay [] z = z"
| "replay (ZipWrite f c # es) z = replay es (z(f \<mapsto> c))"
| "replay (e # es) z = replay es z"

text \<open>
  The shape of the effects of one iteration for the document \<open>f\<close>. The effects of
  the chunk loop are status reports and requests. The end of a completed iteration is the
  write-back of \<open>f\<close>, the progress snapshot if \<open>onProgress\<close> is given, and the pause gate if
  \<open>getPausePromise\<close> is given, in this order and nothing else. An iteration is the status
  \<open>Processing: f\<close>, effects of the chunk loop, and then nothing or such an end.
\<close>

definition chunkEffect :: "effect \<Rightarrow> bool" where
  "chunkEffect e = (case e of SetStatus s \<Rightarrow> True | Request r \<Rightarrow> True | _ \<Rightarrow> False)"

definition gateOnly :: "pausable \<Rightarrow> effect list \<Rightarrow> bool" where
  "gateOnly ps es = (es = (if getPausePromise ps then [PauseGate] else []))"

fun boundary :: "pausable \<Rightarrow> jsstring \<Rightarrow> effect list \<Rightarrow> bool" where
  "boundary ps f (ZipWrite g c # OnProgress p # es) =
     (g = f \<and> onProgress ps \<and> currentFile p = f \<and> gateOnly ps es)"
| "boundary ps f (ZipWrite g c # es) = (g = f \<and> \<not> onProgress ps \<and> gateOnly ps es)"
| "boundary ps f es = False"

fun iteration :: "pausable \<Rightarrow> jsstring \<Rightarrow> effect list \<Rightarrow> bool" where
  "iteration ps f (SetStatus s # es) =
     (s = js ''Processing: '' @ f \<and>
      (dropWhile chunkEffect es = [] \<or> boundary ps f (dropWhile chunkEffect es)))"
| "iteration ps f es = False"

text \<open>The number of pause promises awaited among some effects.\<close>

definition gatesIn :: "effect list \<Rightarrow> nat" where
  "gatesIn es = length (filter (\<lambda>e. e = PauseGate) es)"

text \<open>
  The invariant of the loop over the spine: \<open>new\<close> are the iterations run for the
  documents \<open>rest\<close>, the outcome is \<open>oc\<close>, and \<open>g\<close> pause promises were awaited before.
\<close>

definition runOK :: "pausable \<Rightarrow> (nat \<Rightarrow> bool) \<Rightarrow> outcome \<Rightarrow> nat \<Rightarrow> jsstring list
    \<Rightarrow> effect list list \<Rightarrow> bool" where
  "runOK ps resumed oc g rest new =
     (length new \<le> length rest \<and>
      (\<forall>i<length new. iteration ps (rest ! i) (new ! i)) \<and>
      (oc = Completed \<longrightarrow> length new = length rest) \<and>
      (new = [] \<longrightarrow> oc = Completed) \<and>
      (oc = Suspended \<longrightarrow> new \<noteq> [] \<and> last (last new) = PauseGate) \<and>
      (\<forall>i<length new. last (new ! i) = PauseGate \<longrightarrow>
         (if resumed (g + gatesIn (concat (take i new)))
          then Suc i < length new \<or> (oc = Completed \<and> Suc i = length rest)
          else oc = Suspended \<and> Suc i = length new)))"

text \<open>
  For sample runs: a library instance over the parser and the tree of this theory
  (nodes are named by their identities), a book of two documents of one paragraph
  each, parameters with a pause promise, and a user who resumes the first pause only.
\<close>

definition sampleLib :: "(dom, nat) cheerio" where
  "sampleLib =
     \<lparr>c_load = cheerio_load parseMarkup,
      c_select = (\<lambda>d. map nodeId (selectTag (js ''p'') (roots d))),
      c_text = (\<lambda>d i. case findIn i (roots d) of Some el \<Rightarrow> textContent el | None \<Rightarrow> []),
      c_html = (\<lambda>d i s. case findIn i (roots d) of
                            Some el \<Rightarrow> cheerio_html parseMarkup d el s | None \<Rightarrow> d),
      c_after = (\<lambda>d i s. case findIn i (roots d) of
                             Some el \<Rightarrow> cheerio_after parseMarkup d el s | None \<Rightarrow> d),
      c_render = (\<lambda>d. renderXml (roots d)),
      c_body = (\<lambda>d. bodyHtml renderXml (roots d))\<rparr>"

definition twoDocuments :: archive where
  "twoDocuments =
     [CONTAINER_PATH \<mapsto> js ''<container><rootfile full-path=\"c.opf\"/></container>'',
      js ''c.opf'' \<mapsto> js ''<package><manifest><item id=\"a\" href=\"a.html\"/><item id=\"b\" href=\"b.html\"/></manifest><spine><itemref idref=\"a\"/><itemref idref=\"b\"/></spine></package>'',
      js ''a.html'' \<mapsto> js ''<body><p>Hi</p></body>'',
      js ''b.html'' \<mapsto> js ''<body><p>Yo</p></body>'']"

definition pausing :: pausable where
  "pausing = \<lparr>chunkSize = Fin 1, translationMode = Bilingual, targetLanguage = js ''French'',
              modelName = js ''m'', onProgress = True, getPausePromise = True\<rparr>"

definition firstOnly :: "nat \<Rightarrow> bool" where
  "firstOnly k = (k = 0)"

section \<open>Identities of elements and the blocks of a chunk\<close>

text \<open>
  The identities of the elements of some nodes, in document order. In a well-labelled
  document they are distinct and below the next unused identity, as the library's
  node objects are distinct; a loaded document is well-labelled and a manipulation
  keeps it so.
\<close>

definition idsIn :: "node list \<Rightarrow> nat list" where
  "idsIn ns = map nodeId (allElems ns)"

definition wellLabelled :: "dom \<Rightarrow> bool" where
  "wellLabelled d \<longleftrightarrow> distinct (idsIn (roots d)) \<and> (\<forall>i\<in>set (idsIn (roots d)). i < fresh d)"

text \<open>
  What the three manipulations put in the place of an element: the element or its
  shell, and the new nodes once.
\<close>

definition goodPlace :: "(node \<Rightarrow> node list \<Rightarrow> node list) \<Rightarrow> bool" where
  "goodPlace place \<longleftrightarrow>
     (\<forall>e new. isElement e \<longrightarrow>
        set (idsIn (place e new)) \<subseteq> set (idsIn [e]) \<union> set (idsIn new) \<and>
        (distinct (idsIn [e]) \<and> distinct (idsIn new) \<and> set (idsIn [e]) \<inter> set (idsIn new) = {}
           \<longrightarrow> distinct (idsIn (place e new))))"

text \<open>
  The blocks of a chunk in the document they are applied to: distinct elements of the
  document, as they are there, none inside another. The nodes that selectLeafBlocks
  returns are such blocks.
\<close>

definition blocksIn :: "dom \<Rightarrow> node list \<Rightarrow> bool" where
  "blocksIn d bs \<longleftrightarrow>
     wellLabelled d \<and> distinct bs \<and>
     (\<forall>b\<in>set bs. findIn (nodeId b) (roots d) = Some b) \<and>
     (\<forall>b\<in>set bs. \<forall>b'\<in>set bs. b \<noteq> b' \<longrightarrow> nodeId b' \<notin> set (idsIn [b]))"

text \<open>
  A block that got the empty translation: in replace mode its content is empty; in
  bilingual mode a new empty element with the marker class is its last child (list
  item, quotation) or its next sibling (heading, any other block). \<open>K\<close> bounds the
  identity of the new element from below.
\<close>

definition emptyAt :: "nat \<Rightarrow> mode \<Rightarrow> node \<Rightarrow> dom \<Rightarrow> bool" where
  "emptyAt K m b D \<longleftrightarrow>
     (if m = Replace
      then findIn (nodeId b) (roots D)
             = Some (Element (nodeId b) (nodeName b) (nodeAttribs b) [])
      else \<exists>k\<ge>K.
        if tagName b = js ''li''
        then findIn (nodeId b) (roots D)
               = Some (Element (nodeId b) (nodeName b) (nodeAttribs b)
                         (childrenOf b @ [Element k (js ''div'') [(js ''class'', MARKER)] []]))
        else if tagName b = js ''blockquote''
        then findIn (nodeId b) (roots D)
               = Some (Element (nodeId b) (nodeName b) (nodeAttribs b)
                         (childrenOf b @ [Element k (js ''p'') [(js ''class'', MARKER)] []]))
        else if isHeadingName (tagName b)
        then \<exists>rest. followersIn (nodeId b) (roots D)
               = Some (Element k (js ''div'') [(js ''class'', MARKER)] [] # rest)
        else \<exists>rest. followersIn (nodeId b) (roots D)
               = Some (Element k (js ''p'') [(js ''class'', MARKER)] [] # rest))"

text \<open>
  The loaded document of the book \<open>twoParagraphs\<close> and the chunk of its two paragraphs.
\<close>

definition twoParagraphsDoc :: dom where
  "twoParagraphsDoc = cheerio_load parseMarkup (js ''<body><p>Hi</p><p>Yo</p></body>'')"

definition twoBlocks :: "node chunk" where
  "twoBlocks = \<lparr>nodes = [Element 1 (js ''p'') [] [Text (js ''Hi'')],
                         Element 2 (js ''p'') [] [Text (js ''Yo'')]],
                texts = [js ''Hi'', js ''Yo''], charCount = 8\<rparr>"

section \<open>Properties of the chunker\<close>

lemma charTotal_snoc: "charTotal (ts @ [t]) = charTotal ts + (length t + 2)"
  by (simp add: charTotal_def)

lemma curOK_empty: "curOK B emptyChunk"
  by (simp add: curOK_def emptyChunk_def charTotal_def)

lemma chunkLoop_inv:
  "\<forall>c \<in> set chunks. chunkOK B c \<Longrightarrow> curOK B cur \<Longrightarrow>
   chunkLoop B M bs chunks cur = (chunks', cur') \<Longrightarrow>
   (\<forall>c \<in> set chunks'. chunkOK B c) \<and> curOK B cur'"
proof (induction bs arbitrary: chunks cur)
  case Nil
  then show ?case by simp
next
  case (Cons b bs)
  let ?wc = "charCount cur > 0 \<and> charCount cur + length (btext b) + 2 > B"
  let ?wn = "lengthGe (length (nodes cur)) M"
  let ?flush = "(?wc \<or> ?wn) \<and> length (nodes cur) > 0"
  let ?chunks1 = "if ?flush then chunks @ [cur] else chunks"
  let ?cur1 = "if ?flush then emptyChunk else cur"
  let ?cur2 = "\<lparr>nodes = nodes ?cur1 @ [node b], texts = texts ?cur1 @ [btext b],
                 charCount = charCount ?cur1 + (length (btext b) + 2)\<rparr>"
  have cur_chunk: "nodes cur \<noteq> [] \<Longrightarrow> chunkOK B cur"
    using Cons.prems(2) by (auto simp: curOK_def chunkOK_def)
  have c1: "\<forall>c \<in> set ?chunks1. chunkOK B c"
    using Cons.prems(1) cur_chunk by auto
  have k1: "curOK B ?cur1"
    using Cons.prems(2) curOK_empty by auto
  have pos: "nodes cur \<noteq> [] \<Longrightarrow> 0 < charCount cur"
    using Cons.prems(2) by (cases "texts cur") (auto simp: curOK_def charTotal_def)
  have base: "charCount ?cur2 = charTotal (texts ?cur2) \<and>
              length (texts ?cur2) = length (nodes ?cur2)"
    using k1 by (simp add: curOK_def charTotal_snoc del: if_split cong: if_cong)
  have fits: "nodes ?cur1 \<noteq> [] \<Longrightarrow> charCount ?cur2 \<le> B"
    using pos by (auto simp: emptyChunk_def split: if_splits)
  have single: "nodes ?cur1 = [] \<Longrightarrow> length (nodes ?cur2) = 1"
    by simp
  have c2: "chunkOK B ?cur2"
    unfolding chunkOK_def using base fits single
    by (cases "nodes ?cur1 = []") (auto simp del: if_split)
  show ?case
  proof (cases "charCount ?cur2 \<ge> B")
    case True
    then have "chunkLoop B M bs (?chunks1 @ [?cur2]) emptyChunk = (chunks', cur')"
      using Cons.prems(3) by (simp add: Let_def)
    moreover have "\<forall>c \<in> set (?chunks1 @ [?cur2]). chunkOK B c"
      using c1 c2 by (auto simp del: if_split)
    ultimately show ?thesis
      using Cons.IH curOK_empty by blast
  next
    case False
    then have "chunkLoop B M bs ?chunks1 ?cur2 = (chunks', cur')"
      using Cons.prems(3) by (simp add: Let_def)
    moreover have "curOK B ?cur2"
      unfolding curOK_def using base False by (simp del: if_split)
    ultimately show ?thesis
      using Cons.IH c1 by blast
  qed
qed

lemma chunkLoop_final:
  assumes "chunkLoop B M bs [] emptyChunk = (chunks, cur)"
  shows "(\<forall>c \<in> set chunks. chunkOK B c) \<and> curOK B cur"
  using chunkLoop_inv[of "[]" B emptyChunk M bs chunks cur] curOK_empty[of B] assms by auto

lemma chunkBlocks_ok: "c \<in> set (chunkBlocks B M bs) \<Longrightarrow> chunkOK B c"
proof -
  assume a: "c \<in> set (chunkBlocks B M bs)"
  obtain chunks cur where r: "chunkLoop B M bs [] emptyChunk = (chunks, cur)"
    by (cases "chunkLoop B M bs [] emptyChunk")
  have inv: "(\<forall>c \<in> set chunks. chunkOK B c) \<and> curOK B cur"
    using chunkLoop_final[OF r] .
  then have "nodes cur \<noteq> [] \<Longrightarrow> chunkOK B cur"
    by (auto simp: curOK_def chunkOK_def)
  with a r inv show ?thesis
    by (auto simp: chunkBlocks_def split: if_splits)
qed

lemma chunkLoop_concat:
  "chunkLoop B M bs chunks cur = (chunks', cur') \<Longrightarrow>
   concat (map nodes chunks') @ nodes cur' = concat (map nodes chunks) @ nodes cur @ map node bs \<and>
   concat (map texts chunks') @ texts cur' = concat (map texts chunks) @ texts cur @ map btext bs"
proof (induction bs arbitrary: chunks cur)
  case Nil
  then show ?case by simp
next
  case (Cons b bs)
  then show ?case
    by (auto simp: Let_def emptyChunk_def split: if_splits)
qed

lemma chunkBlocks_concat:
  "concat (map nodes (chunkBlocks B M bs)) = map node bs \<and>
   concat (map texts (chunkBlocks B M bs)) = map btext bs"
proof -
  obtain chunks cur where r: "chunkLoop B M bs [] emptyChunk = (chunks, cur)"
    by (cases "chunkLoop B M bs [] emptyChunk")
  have c: "concat (map nodes chunks) @ nodes cur = map node bs"
          "concat (map texts chunks) @ texts cur = map btext bs"
    using chunkLoop_concat[OF r] by (simp_all add: emptyChunk_def)
  have "curOK B cur"
    using chunkLoop_final[OF r] by simp
  then have t: "nodes cur = [] \<Longrightarrow> texts cur = []"
    by (simp add: curOK_def)
  show ?thesis using c t by (auto simp: chunkBlocks_def r)
qed

lemma chunkLoop_PosInf: "chunkLoop B PosInf bs chunks cur = charsOnlyLoop B bs chunks cur"
  by (induction bs arbitrary: chunks cur) (simp_all add: Let_def)

lemma fiveBlocks_chunks:
  "chunkBlocks 12 (Fin 2) fiveBlocks =
     [\<lparr>nodes = [1], texts = [js ''abc''], charCount = 5\<rparr>,
      \<lparr>nodes = [2], texts = [js ''0123456789abc''], charCount = 15\<rparr>,
      \<lparr>nodes = [3, 4], texts = [js ''ab'', js ''cd''], charCount = 8\<rparr>,
      \<lparr>nodes = [5], texts = [js ''ef''], charCount = 4\<rparr>]"
  by (simp add: chunkBlocks_def fiveBlocks_def Let_def emptyChunk_def js_def)

text \<open>
  C1. Every chunk the chunker produces has a total character count (text lengths plus
  2 per block) within the character budget, unless it consists of exactly one block
  whose own count exceeds the budget. The loop's running \<open>charCount\<close> is that total.
\<close>

theorem chunk_within_budget:
  "\<forall>c \<in> set (chunkBlocks maxChars maxParas filtered).
     charCount c = charTotal (texts c) \<and> length (texts c) = length (nodes c) \<and>
     (charTotal (texts c) \<le> maxChars \<or>
      (length (nodes c) = 1 \<and> maxChars < charTotal (texts c)))"
proof
  fix c assume "c \<in> set (chunkBlocks maxChars maxParas filtered)"
  then have "chunkOK maxChars c" by (rule chunkBlocks_ok)
  then show "charCount c = charTotal (texts c) \<and> length (texts c) = length (nodes c) \<and>
     (charTotal (texts c) \<le> maxChars \<or>
      (length (nodes c) = 1 \<and> maxChars < charTotal (texts c)))"
    by (auto simp: chunkOK_def)
qed

theorem chunk_within_budget_witness:
  "\<lparr>nodes = [2], texts = [js ''0123456789abc''], charCount = 15\<rparr>
      \<in> set (chunkBlocks 12 (Fin 2) fiveBlocks) \<and>
   (12::nat) < charTotal [js ''0123456789abc''] \<and>
   \<lparr>nodes = [3, 4], texts = [js ''ab'', js ''cd''], charCount = 8\<rparr>
      \<in> set (chunkBlocks 12 (Fin 2) fiveBlocks) \<and>
   charTotal [js ''ab'', js ''cd''] \<le> (12::nat)"
  using chunk_within_budget[of 12 "Fin 2" fiveBlocks]
  by (simp add: fiveBlocks_chunks charTotal_def js_def)

text \<open>
  C2. Concatenating the blocks of all chunks, in chunk order, gives back the input
  block sequence (nodes and texts alike), and no chunk is empty.
\<close>

theorem chunks_partition_input:
  "concat (map nodes (chunkBlocks maxChars maxParas filtered)) = map node filtered \<and>
   concat (map texts (chunkBlocks maxChars maxParas filtered)) = map btext filtered \<and>
   [] \<notin> set (map nodes (chunkBlocks maxChars maxParas filtered))"
proof -
  have "\<forall>c \<in> set (chunkBlocks maxChars maxParas filtered). nodes c \<noteq> []"
    using chunkBlocks_ok[of _ maxChars maxParas filtered] by (auto simp: chunkOK_def)
  then have "[] \<notin> set (map nodes (chunkBlocks maxChars maxParas filtered))"
    by (metis (no_types, lifting) imageE list.set_map)
  then show ?thesis
    using chunkBlocks_concat[of maxChars maxParas filtered] by simp
qed

text \<open>
  C3, as the claim states it, fails: for three blocks of 10, 4000 and 50 characters,
  budget 4096 and no block-count cap (\<open>chunkSize = 0\<close>), the chunker does not produce
  the two chunks [1, 2] and [3].
\<close>

theorem scenario1_not_two_chunks:
  "map nodes (chunkBlocks 4096 (MAX_PARAS_PER_CHUNK (Fin 0)) scenario1) \<noteq> [[1, 2], [3]]"
  by (simp add: chunkBlocks_def scenario1_def MAX_PARAS_PER_CHUNK_def Let_def emptyChunk_def)

text \<open>
  C3, amended. On that input the chunker produces exactly one chunk, holding blocks
  1, 2 and 3, with character total 4066 (12 + 4002 + 52, which is within 4096).
\<close>

theorem scenario1_one_chunk:
  "map nodes (chunkBlocks 4096 (MAX_PARAS_PER_CHUNK (Fin 0)) scenario1) = [[1, 2, 3]] \<and>
   map charCount (chunkBlocks 4096 (MAX_PARAS_PER_CHUNK (Fin 0)) scenario1) = [4066] \<and>
   map (\<lambda>c. charTotal (texts c)) (chunkBlocks 4096 (MAX_PARAS_PER_CHUNK (Fin 0)) scenario1)
     = [4066]"
  by (simp add: chunkBlocks_def scenario1_def MAX_PARAS_PER_CHUNK_def Let_def emptyChunk_def
      charTotal_def)

text \<open>
  C10. For every \<open>chunkSize\<close> that is not a positive finite number (zero, negative
  numbers, NaN, the infinities) the chunker applies no block-count cap: its chunks are
  those that the fixed 20000-character budget alone determines.
\<close>

theorem no_cap_unless_positive_finite:
  "\<not> (isFinite sz \<and> gtZero sz) \<Longrightarrow>
   chunkBlocks MAX_CHARS_PER_CHUNK (MAX_PARAS_PER_CHUNK sz) filtered
     = chunkByCharsOnly MAX_CHARS_PER_CHUNK filtered"
  by (auto simp add: MAX_PARAS_PER_CHUNK_def chunkBlocks_def chunkByCharsOnly_def
      chunkLoop_PosInf)

theorem no_cap_unless_positive_finite_witness:
  "\<not> (isFinite NaN \<and> gtZero NaN) \<and>
   chunkBlocks MAX_CHARS_PER_CHUNK (MAX_PARAS_PER_CHUNK NaN) fiveBlocks
     = chunkByCharsOnly MAX_CHARS_PER_CHUNK fiveBlocks \<and>
   map nodes (chunkByCharsOnly MAX_CHARS_PER_CHUNK fiveBlocks) = [[1, 2, 3, 4, 5]]"
  using no_cap_unless_positive_finite[of NaN fiveBlocks]
  by (simp add: chunkByCharsOnly_def fiveBlocks_def MAX_CHARS_PER_CHUNK_def Let_def
      emptyChunk_def js_def)

section \<open>Evaluating the parser on concrete markup\<close>

lemmas tok_defs = tokenize_def tokStep_def tokInit_def handleTrailingData_def stateText_def
  stateBeforeTagName_def stateInTagName_def stateBeforeAttributeName_def stateInSelfClosingTag_def
  stateBeforeClosingTagName_def stateInClosingTagName_def stateAfterClosingTagName_def
  stateInAttributeName_def stateAfterAttributeName_def stateBeforeAttributeValue_def
  handleInAttributeValue_def stateInAttributeValueNoQuotes_def stateInDeclaration_def
  stateInProcessingInstruction_def stateInSpecialComment_def stateInComment_def
  isEndOfTagSection_def isWhitespace_def keep_def emit_def attribEnd_def

lemmas parse_defs = parseMarkup_def build_def appendToLastText_def tok_defs js_def

lemma sampleDoc_roots:
  "roots sampleDoc =
     [Element 0 (js ''body'') []
        [Element 1 (js ''h1'') [] [Text (js ''T'')],
         Element 2 (js ''ul'') [] [Element 3 (js ''li'') [] [Text (js ''a'')]],
         Element 4 (js ''blockquote'') [] [Text (js ''q'')],
         Element 5 (js ''p'') [] [Text (js ''x'')],
         Element 6 (js ''div'') []
           [Element 7 (js ''p'') [(js ''class'', js ''note translated-bilingual'')]
              [Text (js ''y'')]]]]"
  by (simp add: sampleDoc_def cheerio_load_def parse_defs)

lemma sampleDoc_fresh: "fresh sampleDoc = 8"
  by (simp add: sampleDoc_def cheerio_load_def parse_defs)

lemmas select_defs = selectLeafBlocks_def selectBlocks_def findBlocks_def allElems_def
  matchesBlock_def BLOCK_TAGS_def cheerio_attr_def markerTest_def MARKER_def isWordChar_def js_def

lemma sampleDoc_leaves:
  "selectLeafBlocks (roots sampleDoc) =
     [Element 1 (js ''h1'') [] [Text (js ''T'')],
      Element 3 (js ''li'') [] [Text (js ''a'')],
      Element 4 (js ''blockquote'') [] [Text (js ''q'')],
      Element 5 (js ''p'') [] [Text (js ''x'')]]"
  by (simp add: sampleDoc_roots select_defs)

section \<open>Properties of the block extractor\<close>

lemma ws_not_word: "isWhitespace c \<Longrightarrow> \<not> isWordChar c"
  by (auto simp: isWhitespace_def isWordChar_def)

lemma MARKER_cons: "\<exists>c cs. MARKER = c # cs"
  by (simp add: MARKER_def js_def)

lemma markerTest_at:
  "\<not> pw \<Longrightarrow> rest = [] \<or> \<not> isWordChar (hd rest) \<Longrightarrow> markerTestFrom pw (MARKER @ rest)"
proof -
  assume a: "\<not> pw" "rest = [] \<or> \<not> isWordChar (hd rest)"
  obtain c cs where m: "MARKER = c # cs" using MARKER_cons by blast
  show ?thesis
    using a by (cases rest) (simp_all add: m)
qed

lemma markerTest_skip:
  "xs \<noteq> [] \<Longrightarrow> markerTestFrom (isWordChar (last xs)) rest \<Longrightarrow> markerTestFrom pw (xs @ rest)"
proof (induction xs arbitrary: pw)
  case Nil
  then show ?case by simp
next
  case (Cons x xs)
  show ?case
  proof (cases xs)
    case Nil
    then show ?thesis using Cons.prems by simp
  next
    case (Cons y ys)
    then have "markerTestFrom (isWordChar x) (xs @ rest)"
      using Cons.IH Cons.prems by simp
    then show ?thesis by simp
  qed
qed

text \<open>
  A class attribute that holds the marker as one of its names passes the program's
  regular-expression test: the names around it are set off by white space, which is not
  a word character.
\<close>

lemma marker_token_found:
  "MARKER \<in> set (classTokensFrom cur s) \<Longrightarrow> \<not> pw \<Longrightarrow> markerTestFrom pw (cur @ s)"
proof (induction s arbitrary: cur pw)
  case Nil
  then have "cur = MARKER" by (auto split: if_splits)
  then show ?case using markerTest_at[of pw "[]"] Nil.prems(2) by simp
next
  case (Cons c cs)
  show ?case
  proof (cases "isWhitespace c")
    case True
    then have nw: "\<not> isWordChar c" by (rule ws_not_word)
    from Cons.prems(1) True
    consider (here) "cur = MARKER" | (later) "MARKER \<in> set (classTokensFrom [] cs)"
      by (auto split: if_splits)
    then show ?thesis
    proof cases
      case here
      then show ?thesis using markerTest_at[of pw "c # cs"] Cons.prems(2) nw by simp
    next
      case later
      then have "markerTestFrom False ([] @ cs)" using Cons.IH by blast
      then have "markerTestFrom (isWordChar (last (cur @ [c]))) cs" using nw by simp
      then have "markerTestFrom pw ((cur @ [c]) @ cs)"
        by (intro markerTest_skip) simp_all
      then show ?thesis by simp
    qed
  next
    case False
    then have "MARKER \<in> set (classTokensFrom (cur @ [c]) cs)" using Cons.prems(1) by simp
    then have "markerTestFrom pw ((cur @ [c]) @ cs)" using Cons.IH Cons.prems(2) by blast
    then show ?thesis by simp
  qed
qed

lemma marker_class_tested: "MARKER \<in> set (classTokens cls) \<Longrightarrow> markerTest cls"
  using marker_token_found[of "[]" cls False] by (simp add: classTokens_def markerTest_def)

text \<open>
  C4. Every node the block extractor returns is an element of the document that
  matches the translatable-tag set, has no descendant that matches it, and does not
  bear the class \<open>translated-bilingual\<close>.
\<close>

theorem leaf_blocks_are_unmarked_leaves:
  "\<forall>el \<in> set (selectLeafBlocks rs).
     el \<in> set (allElems rs) \<and> matchesBlock el \<and>
     (\<forall>d \<in> set (allElems (childrenOf el)). \<not> matchesBlock d) \<and>
     \<not> hasClass MARKER el"
proof
  fix el assume a: "el \<in> set (selectLeafBlocks rs)"
  then have sel: "el \<in> set (allElems rs)" "matchesBlock el"
    by (auto simp: selectLeafBlocks_def selectBlocks_def Let_def)
  have nomark: "\<not> markerTest (case cheerio_attr el (js ''class'') of None \<Rightarrow> [] | Some v \<Rightarrow> v)"
    using a by (auto simp: selectLeafBlocks_def Let_def split: if_splits)
  have leaf: "filter matchesBlock (allElems (childrenOf el)) = []"
    using a by (auto simp: selectLeafBlocks_def findBlocks_def Let_def split: if_splits)
  have "\<not> hasClass MARKER el"
    using nomark marker_class_tested by (auto simp: hasClass_def split: option.splits)
  moreover have "\<forall>d \<in> set (allElems (childrenOf el)). \<not> matchesBlock d"
    using leaf by (simp add: filter_empty_conv)
  ultimately show "el \<in> set (allElems rs) \<and> matchesBlock el \<and>
     (\<forall>d \<in> set (allElems (childrenOf el)). \<not> matchesBlock d) \<and> \<not> hasClass MARKER el"
    using sel by simp
qed

theorem leaf_blocks_are_unmarked_leaves_witness:
  "Element 5 (js ''p'') [] [Text (js ''x'')] \<in> set (selectLeafBlocks (roots sampleDoc)) \<and>
   matchesBlock (Element 5 (js ''p'') [] [Text (js ''x'')]) \<and>
   \<not> hasClass MARKER (Element 5 (js ''p'') [] [Text (js ''x'')]) \<and>
   map nodeId (selectLeafBlocks (roots sampleDoc)) = [1, 3, 4, 5] \<and>
   hasClass MARKER
     (Element 7 (js ''p'') [(js ''class'', js ''note translated-bilingual'')] [Text (js ''y'')])"
  using leaf_blocks_are_unmarked_leaves[of "roots sampleDoc"]
  by (simp add: sampleDoc_leaves hasClass_def classTokens_def cheerio_attr_def MARKER_def
      isWhitespace_def js_def)

section \<open>Resolving the manifest\<close>

lemma noRootfile_path:
  "rootfilePath parseMarkup (js ''<container><rootfile/></container>'') = None"
  by (simp add: rootfilePath_def cheerio_load_def parse_defs selectTag_def allElems_def
      cheerio_attr_def)

lemma rootfile_path:
  "rootfilePath parseMarkup (js ''<container><rootfile full-path=\"c.opf\"/></container>'')
     = Some (js ''c.opf'')"
  by (simp add: rootfilePath_def cheerio_load_def parse_defs selectTag_def allElems_def
      cheerio_attr_def)

lemma opf_not_container: "js ''c.opf'' \<noteq> CONTAINER_PATH"
  by (simp add: CONTAINER_PATH_def js_def)

lemma sample_strings_nonempty:
  "js ''<container><rootfile/></container>'' \<noteq> []"
  "js ''<container><rootfile full-path=\"c.opf\"/></container>'' \<noteq> []"
  "js ''c.opf'' \<noteq> []"
  by (simp_all add: js_def)

lemma resolve_empty: "resolveSpine parseMarkup Map.empty = Inl ContainerNotFound"
  by (simp add: resolveSpine_def)

lemma resolve_noRootfile: "resolveSpine parseMarkup noRootfileBook = Inl OpfPathNotFound"
  by (simp add: resolveSpine_def noRootfileBook_def noRootfile_path sample_strings_nonempty)

lemma resolve_noOpf: "resolveSpine parseMarkup noOpfBook = Inl (OpfFileNotFound (js ''c.opf''))"
  by (simp add: resolveSpine_def noOpfBook_def rootfile_path sample_strings_nonempty
      opf_not_container)

lemma noOpfBook_opf: "noOpfBook (js ''c.opf'') = None"
  by (simp add: noOpfBook_def opf_not_container)

text \<open>
  C6. If the entry \<open>META-INF/container.xml\<close> is absent, or its rootfile element has no
  \<open>full-path\<close> attribute, or the entry that attribute names is absent, the job fails
  with an error after its first two status reports: no document is processed, no request
  is made and the archive is as it was.
\<close>

theorem malformed_archive_fails_early:
  assumes "z CONTAINER_PATH = None \<or>
           (\<exists>c. z CONTAINER_PATH = Some c \<and> rootfilePath parse c = None) \<or>
           (\<exists>c p. z CONTAINER_PATH = Some c \<and> rootfilePath parse c = Some p \<and> z p = None)"
  shows "\<exists>e. translateEpub ps parse render svc z = (Some e, started z)"
  using assms
  by (auto simp: translateEpub_def resolveSpine_def perform_def started_def Let_def
      split: option.splits)

theorem malformed_archive_fails_early_witness:
  "(Map.empty :: archive) CONTAINER_PATH = None \<and>
   translateEpub params0 parseMarkup renderXml (\<lambda>n r. Unparsed) Map.empty
     = (Some ContainerNotFound, started Map.empty) \<and>
   rootfilePath parseMarkup (js ''<container><rootfile/></container>'') = None \<and>
   translateEpub params0 parseMarkup renderXml (\<lambda>n r. Unparsed) noRootfileBook
     = (Some OpfPathNotFound, started noRootfileBook) \<and>
   noOpfBook (js ''c.opf'') = None \<and>
   translateEpub params0 parseMarkup renderXml (\<lambda>n r. Unparsed) noOpfBook
     = (Some (OpfFileNotFound (js ''c.opf'')), started noOpfBook)"
  using malformed_archive_fails_early[of Map.empty parseMarkup params0 renderXml "\<lambda>n r. Unparsed"]
    malformed_archive_fails_early[of noRootfileBook parseMarkup params0 renderXml "\<lambda>n r. Unparsed"]
    malformed_archive_fails_early[of noOpfBook parseMarkup params0 renderXml "\<lambda>n r. Unparsed"]
  by (simp add: translateEpub_def perform_def started_def Let_def noRootfile_path
      resolve_empty resolve_noRootfile resolve_noOpf noOpfBook_opf)

section \<open>The parser on text without markup\<close>

lemma text_run:
  "tmode t = InText \<Longrightarrow> 60 \<notin> set s \<Longrightarrow> foldl tokStep t s = t\<lparr>sect := sect t @ s\<rparr>"
proof (induction s arbitrary: t)
  case Nil
  then show ?case by simp
next
  case (Cons c s)
  have step: "tokStep t c = t\<lparr>sect := sect t @ [c]\<rparr>"
    using Cons.prems by (simp add: tokStep_def stateText_def keep_def)
  have "foldl tokStep (t\<lparr>sect := sect t @ [c]\<rparr>) s
          = (t\<lparr>sect := sect t @ [c]\<rparr>)\<lparr>sect := sect (t\<lparr>sect := sect t @ [c]\<rparr>) @ s\<rparr>"
    using Cons.prems by (intro Cons.IH) simp_all
  then show ?case using step by simp
qed

lemma parse_plain:
  "60 \<notin> set s \<Longrightarrow> parseMarkup s = (if s = [] then [] else [Text s])"
  by (simp add: parseMarkup_def tokenize_def text_run tokInit_def handleTrailingData_def build_def)

lemma open_div: "foldl tokStep tokInit DIV_OPEN = afterOpen (js ''div'')"
  by (simp add: DIV_OPEN_def afterOpen_def MARKER_def tok_defs js_def)

lemma open_p: "foldl tokStep tokInit P_OPEN = afterOpen (js ''p'')"
  by (simp add: P_OPEN_def afterOpen_def MARKER_def tok_defs js_def)

lemma close_div:
  "handleTrailingData (foldl tokStep ((afterOpen (js ''div''))\<lparr>sect := s\<rparr>) (js ''</div>''))
     = [EOpen (js ''div'') [(js ''class'', MARKER)]] @ (if s = [] then [] else [EText s])
       @ [EClose (js ''div'')]"
  by (simp add: afterOpen_def tok_defs js_def)

lemma close_p:
  "handleTrailingData (foldl tokStep ((afterOpen (js ''p''))\<lparr>sect := s\<rparr>) (js ''</p>''))
     = [EOpen (js ''p'') [(js ''class'', MARKER)]] @ (if s = [] then [] else [EText s])
       @ [EClose (js ''p'')]"
  by (simp add: afterOpen_def tok_defs js_def)

lemma afterOpen_text: "tmode (afterOpen tg) = InText" "sect (afterOpen tg) = []"
  by (simp_all add: afterOpen_def)

lemma parse_div_wrapper:
  "60 \<notin> set s \<Longrightarrow> parseMarkup (DIV_OPEN @ s @ js ''</div>'')
     = [Element 0 (js ''div'') [(js ''class'', MARKER)] (if s = [] then [] else [Text s])]"
  by (simp add: parseMarkup_def tokenize_def open_div text_run afterOpen_text close_div build_def)

lemma parse_p_wrapper:
  "60 \<notin> set s \<Longrightarrow> parseMarkup (P_OPEN @ s @ js ''</p>'')
     = [Element 0 (js ''p'') [(js ''class'', MARKER)] (if s = [] then [] else [Text s])]"
  by (simp add: parseMarkup_def tokenize_def open_p text_run afterOpen_text close_p build_def)

section \<open>Updating the element with a given identity\<close>

lemma findIn_append:
  "findIn i (xs @ ys) = (case findIn i xs of Some e \<Rightarrow> Some e | None \<Rightarrow> findIn i ys)"
  by (induction xs) (auto split: option.splits)

lemma found_is_element:
  "findElem i x = Some el \<Longrightarrow> isElement el \<and> nodeId el = i"
  "findIn i ns = Some el \<Longrightarrow> isElement el \<and> nodeId el = i"
  by (induction i x and i ns rule: findElem_findIn.induct) (auto split: option.splits if_splits)

lemma upd_absent:
  "findElem i x = None \<Longrightarrow> updNode i f x = [x]"
  "findIn i ns = None \<Longrightarrow> concat (map (updNode i f) ns) = ns"
  by (induction i x and i ns rule: findElem_findIn.induct) (auto split: option.splits if_splits)

lemma upd_found:
  "findElem i x = Some el \<Longrightarrow> findIn i (f el) \<noteq> None \<Longrightarrow>
     findIn i (updNode i f x) = findIn i (f el)"
  "findIn i ns = Some el \<Longrightarrow> findIn i (f el) \<noteq> None \<Longrightarrow>
     findIn i (concat (map (updNode i f) ns)) = findIn i (f el)"
proof (induction i x and i ns rule: findElem_findIn.induct)
  case (1 i j n as cs)
  then show ?case by (auto split: if_splits)
next
  case (6 i x xs)
  show ?case
  proof (cases "findElem i x")
    case None
    then have "updNode i f x = [x]" using upd_absent by blast
    then show ?thesis using None 6 by (auto simp: findIn_append)
  next
    case (Some e)
    then show ?thesis using 6 by (auto simp: findIn_append split: option.splits)
  qed
qed auto

lemma html_sets_children:
  assumes "findIn (nodeId nd) (roots d) = Some nd"
  shows "findIn (nodeId nd) (roots (cheerio_html parse d nd markup))
           = Some (Element (nodeId nd) (nodeName nd) (nodeAttribs nd)
                     (fst (labelNodes (fresh d) (parse markup))))"
proof -
  let ?new = "fst (labelNodes (fresh d) (parse markup))"
  let ?f = "\<lambda>e. [Element (nodeId e) (nodeName e) (nodeAttribs e) ?new]"
  have "findIn (nodeId nd) (?f nd) \<noteq> None" by simp
  then have "findIn (nodeId nd) (concat (map (updNode (nodeId nd) ?f) (roots d)))
               = findIn (nodeId nd) (?f nd)"
    using upd_found(2)[of "nodeId nd" "roots d" nd ?f] assms by blast
  then show ?thesis
    by (cases "labelNodes (fresh d) (parse markup)") (simp add: cheerio_html_def manipulate_def)
qed

lemma para5_found: "findIn (nodeId para5) (roots sampleDoc) = Some para5"
  by (simp add: sampleDoc_roots para5_def js_def)

section \<open>Replace mode\<close>

lemmas strip_defs = stripBlockTags_def trim_def blockTagMatch_def nameGtLen_def altThenGt_def
  headingThenGt_def ciEq_def isSpace_def wsNlMatch_def js_def

lemma strip_italic: "stripBlockTags (js ''<i>x</i>'') = js ''<i>x</i>''"
  by (simp add: strip_defs)

lemma strip_bonjour: "stripBlockTags (js ''<p>Bonjour</p> '') = js ''Bonjour''"
  by (simp add: strip_defs)

lemma parse_italic: "parseMarkup (js ''<i>x</i>'') = [Element 0 (js ''i'') [] [Text (js ''x'')]]"
  by (simp add: parse_defs)

text \<open>
  C8, as the claim states it, fails: the result string \<open><i>x</i>\<close> has no block-level
  markup to strip, and after the replacement the paragraph's text content is \<open>x\<close>, not
  the string: \<open>html()\<close> reads the string as markup.
\<close>

theorem replace_markup_text_differs:
  "findIn 5 (roots (replaceBlock parseMarkup sampleDoc para5 (js ''<i>x</i>'')))
     = Some (Element 5 (js ''p'') [] [Element 8 (js ''i'') [] [Text (js ''x'')]]) \<and>
   textContent (Element 5 (js ''p'') [] [Element 8 (js ''i'') [] [Text (js ''x'')]]) = js ''x'' \<and>
   stripBlockTags (js ''<i>x</i>'') = js ''<i>x</i>'' \<and>
   js ''x'' \<noteq> js ''<i>x</i>''"
proof -
  have "findIn (nodeId para5) (roots (cheerio_html parseMarkup sampleDoc para5 (js ''<i>x</i>'')))
          = Some (Element (nodeId para5) (nodeName para5) (nodeAttribs para5)
                    (fst (labelNodes (fresh sampleDoc) (parseMarkup (js ''<i>x</i>'')))))"
    using para5_found by (rule html_sets_children)
  then have "findIn 5 (roots (replaceBlock parseMarkup sampleDoc para5 (js ''<i>x</i>'')))
     = Some (Element 5 (js ''p'') [] [Element 8 (js ''i'') [] [Text (js ''x'')]])"
    by (simp add: replaceBlock_def strip_italic parse_italic sampleDoc_fresh para5_def)
  moreover have "js ''x'' \<noteq> js ''<i>x</i>''" by (simp add: js_def)
  ultimately show ?thesis by (simp add: strip_italic)
qed

text \<open>
  C8, amended. In replace mode, for every element of the document and every result
  string whose stripped form holds neither \<open><\<close> nor \<open>&\<close>, the element keeps its name
  and attributes and its content becomes the stripped string as one text node (no
  node when the string is empty), so its text content is the stripped string, once.
\<close>

theorem replace_plain_text:
  assumes "findIn (nodeId nd) (roots d) = Some nd"
    and "60 \<notin> set (stripBlockTags t)" and "38 \<notin> set (stripBlockTags t)"
  shows "findIn (nodeId nd) (roots (replaceBlock parseMarkup d nd t))
           = Some (Element (nodeId nd) (nodeName nd) (nodeAttribs nd)
                     (if stripBlockTags t = [] then [] else [Text (stripBlockTags t)])) \<and>
         textContent (Element (nodeId nd) (nodeName nd) (nodeAttribs nd)
                     (if stripBlockTags t = [] then [] else [Text (stripBlockTags t)]))
           = stripBlockTags t"
  using html_sets_children[OF assms(1), of parseMarkup "stripBlockTags t"] assms(2)
  by (simp add: replaceBlock_def parse_plain)

theorem replace_plain_text_witness:
  "findIn (nodeId para5) (roots sampleDoc) = Some para5 \<and>
   60 \<notin> set (stripBlockTags (js ''<p>Bonjour</p> '')) \<and>
   38 \<notin> set (stripBlockTags (js ''<p>Bonjour</p> '')) \<and>
   findIn 5 (roots (replaceBlock parseMarkup sampleDoc para5 (js ''<p>Bonjour</p> '')))
     = Some (Element 5 (js ''p'') [] [Text (js ''Bonjour'')]) \<and>
   textContent (Element 5 (js ''p'') [] [Text (js ''Bonjour'')]) = js ''Bonjour''"
proof -
  have s: "60 \<notin> set (stripBlockTags (js ''<p>Bonjour</p> ''))"
          "38 \<notin> set (stripBlockTags (js ''<p>Bonjour</p> ''))"
    by (simp_all add: strip_bonjour) (simp_all add: js_def)
  have n: "js ''Bonjour'' \<noteq> []" by (simp add: js_def)
  show ?thesis
    using replace_plain_text[OF para5_found s] s para5_found n
    by (simp add: para5_def strip_bonjour)
qed

section \<open>Bilingual mode\<close>

lemma absent_followers:
  "findElem i x = None \<Longrightarrow> followers i x = None \<and> \<not> (isElement x \<and> nodeId x = i)"
  "findIn i ns = None \<Longrightarrow> followersIn i ns = None"
  by (induction i x and i ns rule: findElem_findIn.induct) (auto split: option.splits if_splits)

lemma after_followers:
  "findElem i x = Some el \<Longrightarrow>
     \<exists>rest. followersIn i (updNode i (\<lambda>e. e # new) x @ ys) = Some (new @ rest)"
  "findIn i ns = Some el \<Longrightarrow>
     \<exists>rest. followersIn i (concat (map (updNode i (\<lambda>e. e # new)) ns) @ ys) = Some (new @ rest)"
proof (induction i x and i ns arbitrary: ys and ys rule: findElem_findIn.induct)
  case (1 i j n as cs)
  show ?case
  proof (cases "i = j")
    case True
    then show ?thesis by simp
  next
    case False
    then have "findIn i cs = Some el" using "1.prems" by simp
    then obtain rest where
      "followersIn i (concat (map (updNode i (\<lambda>e. e # new)) cs) @ []) = Some (new @ rest)"
      using "1.IH"[OF False] by blast
    then show ?thesis using False by simp
  qed
next
  case (6 i x xs)
  show ?case
  proof (cases "findElem i x")
    case None
    then have u: "updNode i (\<lambda>e. e # new) x = [x]" using upd_absent by blast
    have "findIn i xs = Some el" using None "6.prems" by simp
    then obtain rest where
      "followersIn i (concat (map (updNode i (\<lambda>e. e # new)) xs) @ ys) = Some (new @ rest)"
      using "6.IH"(2)[OF None] by blast
    then show ?thesis using u absent_followers(1)[OF None] by auto
  next
    case (Some e)
    then have "e = el" using "6.prems" by simp
    then obtain rest where
      "followersIn i (updNode i (\<lambda>e. e # new) x
                       @ (concat (map (updNode i (\<lambda>e. e # new)) xs) @ ys)) = Some (new @ rest)"
      using "6.IH"(1) Some by blast
    then show ?thesis by auto
  qed
qed auto

lemma append_children:
  assumes "findIn (nodeId nd) (roots d) = Some nd"
  shows "findIn (nodeId nd) (roots (cheerio_append parse d nd markup))
           = Some (Element (nodeId nd) (nodeName nd) (nodeAttribs nd)
                     (childrenOf nd @ fst (labelNodes (fresh d) (parse markup))))"
proof -
  let ?new = "fst (labelNodes (fresh d) (parse markup))"
  let ?f = "\<lambda>e. [Element (nodeId e) (nodeName e) (nodeAttribs e) (childrenOf e @ ?new)]"
  have "findIn (nodeId nd) (?f nd) \<noteq> None" by simp
  then have "findIn (nodeId nd) (concat (map (updNode (nodeId nd) ?f) (roots d)))
               = findIn (nodeId nd) (?f nd)"
    using upd_found(2)[of "nodeId nd" "roots d" nd ?f] assms by blast
  then show ?thesis
    by (cases "labelNodes (fresh d) (parse markup)") (simp add: cheerio_append_def manipulate_def)
qed

lemma after_siblings:
  assumes "findIn (nodeId nd) (roots d) = Some nd"
  shows "\<exists>rest. followersIn (nodeId nd) (roots (cheerio_after parse d nd markup))
           = Some (fst (labelNodes (fresh d) (parse markup)) @ rest)"
proof -
  let ?new = "fst (labelNodes (fresh d) (parse markup))"
  obtain rest where
    "followersIn (nodeId nd) (concat (map (updNode (nodeId nd) (\<lambda>e. e # ?new)) (roots d)) @ [])
       = Some (?new @ rest)"
    using after_followers(2)[OF assms] by blast
  then show ?thesis
    by (cases "labelNodes (fresh d) (parse markup)") (simp add: cheerio_after_def manipulate_def)
qed

lemma marked_never_selected:
  "cheerio_attr el (js ''class'') = Some MARKER \<Longrightarrow> el \<notin> set (selectLeafBlocks rs)"
proof -
  assume a: "cheerio_attr el (js ''class'') = Some MARKER"
  have "markerTest MARKER"
    using markerTest_at[of False "[]"] by (simp add: markerTest_def)
  then show ?thesis using a by (auto simp: selectLeafBlocks_def Let_def)
qed

lemma marker_tokens: "classTokens MARKER = [MARKER]"
  by (simp add: classTokens_def MARKER_def isWhitespace_def js_def)

lemma label_artifact:
  "fst (labelNodes k [Element 0 tg [(js ''class'', MARKER)] (if s = [] then [] else [Text s])])
     = [artifact k tg s]"
  by (simp add: artifact_def)

lemma artifact_marked:
  "hasClass MARKER (artifact k tg s)" "artifact k tg s \<notin> set (selectLeafBlocks rs)"
proof -
  show "hasClass MARKER (artifact k tg s)"
    by (simp add: hasClass_def cheerio_attr_def artifact_def marker_tokens)
  show "artifact k tg s \<notin> set (selectLeafBlocks rs)"
    by (rule marked_never_selected) (simp add: cheerio_attr_def artifact_def)
qed

lemma bilingual_plain_placement:
  assumes "findIn (nodeId nd) (roots d) = Some nd"
    and "60 \<notin> set (stripBlockTags t)" and "38 \<notin> set (stripBlockTags t)"
  shows "(if tagName nd = js ''li''
          then findIn (nodeId nd) (roots (insertBilingual parseMarkup d nd t))
                 = Some (Element (nodeId nd) (nodeName nd) (nodeAttribs nd)
                           (childrenOf nd @ [artifact (fresh d) (js ''div'') (stripBlockTags t)]))
          else if tagName nd = js ''blockquote''
          then findIn (nodeId nd) (roots (insertBilingual parseMarkup d nd t))
                 = Some (Element (nodeId nd) (nodeName nd) (nodeAttribs nd)
                           (childrenOf nd @ [artifact (fresh d) (js ''p'') (stripBlockTags t)]))
          else if isHeadingName (tagName nd)
          then \<exists>rest. followersIn (nodeId nd) (roots (insertBilingual parseMarkup d nd t))
                 = Some (artifact (fresh d) (js ''div'') (stripBlockTags t) # rest)
          else \<exists>rest. followersIn (nodeId nd) (roots (insertBilingual parseMarkup d nd t))
                 = Some (artifact (fresh d) (js ''p'') (stripBlockTags t) # rest)) \<and>
         hasClass MARKER (artifact (fresh d) (js ''div'') (stripBlockTags t)) \<and>
         hasClass MARKER (artifact (fresh d) (js ''p'') (stripBlockTags t)) \<and>
         artifact (fresh d) (js ''div'') (stripBlockTags t)
           \<notin> set (selectLeafBlocks (roots (insertBilingual parseMarkup d nd t))) \<and>
         artifact (fresh d) (js ''p'') (stripBlockTags t)
           \<notin> set (selectLeafBlocks (roots (insertBilingual parseMarkup d nd t)))"
  using append_children[OF assms(1), of parseMarkup "DIV_OPEN @ stripBlockTags t @ js ''</div>''"]
    append_children[OF assms(1), of parseMarkup "P_OPEN @ stripBlockTags t @ js ''</p>''"]
    after_siblings[OF assms(1), of parseMarkup "DIV_OPEN @ stripBlockTags t @ js ''</div>''"]
    after_siblings[OF assms(1), of parseMarkup "P_OPEN @ stripBlockTags t @ js ''</p>''"]
    assms(2)
  by (simp add: insertBilingual_def Let_def parse_div_wrapper parse_p_wrapper label_artifact
      artifact_marked del: labelNode.simps labelNodes.simps)

text \<open>
  The lemma above: for a translation whose stripped form holds neither \<open><\<close> nor
  \<open>&\<close>, the inserted node is the last child of a list item or a quotation and the
  next sibling of a heading or any other block; it bears the marker and the block
  extractor never returns it.
\<close>

lemma strip_injected: "stripBlockTags (js ''y</p ><p id=\"a\">z'') = js ''y</p ><p id=\"a\">z''"
  by (simp add: strip_defs)

lemma parse_injected:
  "parseMarkup (P_OPEN @ js ''y</p ><p id=\"a\">z'' @ js ''</p>'')
     = [Element 0 (js ''p'') [(js ''class'', MARKER)] [Text (js ''y'')],
        Element 0 (js ''p'') [(js ''id'', js ''a'')] [Text (js ''z'')]]"
  by (simp add: P_OPEN_def MARKER_def parse_defs)

lemma tagName_para5: "tagName para5 = js ''p''"
  by (simp add: tagName_def toLowerCase_def para5_def js_def)

lemma p_not_special: "js ''p'' \<noteq> js ''li''" "js ''p'' \<noteq> js ''blockquote''" "\<not> isHeadingName (js ''p'')"
  by (simp_all add: js_def isHeadingName_def)

lemma insert_para5:
  "insertBilingual parseMarkup sampleDoc para5 t
     = cheerio_after parseMarkup sampleDoc para5 (P_OPEN @ stripBlockTags t @ js ''</p>'')"
  by (simp add: insertBilingual_def Let_def tagName_para5 p_not_special)

lemma injected_roots:
  "roots (insertBilingual parseMarkup sampleDoc para5 (js ''y</p ><p id=\"a\">z'')) =
     [Element 0 (js ''body'') []
        [Element 1 (js ''h1'') [] [Text (js ''T'')],
         Element 2 (js ''ul'') [] [Element 3 (js ''li'') [] [Text (js ''a'')]],
         Element 4 (js ''blockquote'') [] [Text (js ''q'')],
         Element 5 (js ''p'') [] [Text (js ''x'')],
         Element 8 (js ''p'') [(js ''class'', MARKER)] [Text (js ''y'')],
         Element 9 (js ''p'') [(js ''id'', js ''a'')] [Text (js ''z'')],
         Element 6 (js ''div'') []
           [Element 7 (js ''p'') [(js ''class'', js ''note translated-bilingual'')]
              [Text (js ''y'')]]]]"
  unfolding insert_para5 strip_injected
  by (simp add: cheerio_after_def manipulate_def parse_injected
      sampleDoc_fresh sampleDoc_roots para5_def)

text \<open>
  C7 at a translation that holds markup: for the paragraph \<open><p>x</p>\<close> and the
  translated string \<open>y</p ><p id="a">z\<close>, stripBlockTags removes nothing (the closing
  tag has a space, the opening tag an attribute), two paragraphs are inserted after the
  block, the second one does not bear the marker and the block extractor returns it on
  the changed document.
\<close>

theorem injected_block_is_reselected:
  "followersIn 5 (roots (insertBilingual parseMarkup sampleDoc para5 (js ''y</p ><p id=\"a\">z'')))
     = Some [Element 8 (js ''p'') [(js ''class'', MARKER)] [Text (js ''y'')],
             Element 9 (js ''p'') [(js ''id'', js ''a'')] [Text (js ''z'')],
             Element 6 (js ''div'') []
               [Element 7 (js ''p'') [(js ''class'', js ''note translated-bilingual'')]
                  [Text (js ''y'')]]] \<and>
   \<not> hasClass MARKER (Element 9 (js ''p'') [(js ''id'', js ''a'')] [Text (js ''z'')]) \<and>
   Element 9 (js ''p'') [(js ''id'', js ''a'')] [Text (js ''z'')]
     \<in> set (selectLeafBlocks
               (roots (insertBilingual parseMarkup sampleDoc para5 (js ''y</p ><p id=\"a\">z''))))"
  by (simp add: injected_roots) (simp add: select_defs hasClass_def)

section \<open>The pause gate\<close>

lemma replay_chunk: "list_all chunkEffect es \<Longrightarrow> replay es z = z"
  by (induction es arbitrary: z) (auto simp: chunkEffect_def split: effect.splits)

lemma replay_append: "replay (xs @ ys) z = replay ys (replay xs z)"
proof (induction xs arbitrary: z)
  case Nil
  then show ?case by simp
next
  case (Cons e xs)
  then show ?case by (cases e) (simp_all add: fun_upd_def)
qed

lemma gatesIn_chunk: "list_all chunkEffect es \<Longrightarrow> gatesIn es = 0"
  by (induction es) (auto simp: chunkEffect_def gatesIn_def split: effect.splits)

lemma gatesIn_append: "gatesIn (xs @ ys) = gatesIn xs + gatesIn ys"
  by (simp add: gatesIn_def)

lemma translateChunks1_trace:
  "translateChunks1 ps lib svc f n i cs d st = (r, d', st') \<Longrightarrow>
     zipEntries st' = zipEntries st \<and> gates st' = gates st \<and>
     (\<exists>body. trace st' = trace st @ body \<and> list_all chunkEffect body)"
proof (induction cs arbitrary: i d st)
  case Nil
  then show ?case by auto
next
  case (Cons c cs)
  show ?case
    using Cons.prems
    apply (simp add: Let_def split: response.splits)
      apply (auto simp: perform_def chunkEffect_def)[1]
     apply (drule Cons.IH)
     apply (auto simp: perform_def chunkEffect_def)[1]
    apply (drule Cons.IH)
    apply (auto simp: perform_def chunkEffect_def)[1]
    done
qed

lemma dropWhile_chunk: "list_all chunkEffect body \<Longrightarrow> dropWhile chunkEffect body = []"
  by (induction body) auto

lemma dropWhile_boundary:
  "list_all chunkEffect body \<Longrightarrow>
     dropWhile chunkEffect (body @ ZipWrite f c # es) = ZipWrite f c # es"
  by (induction body) (auto simp: chunkEffect_def)

lemma gatesIn_simps:
  "gatesIn [] = 0" "gatesIn (PauseGate # es) = Suc (gatesIn es)"
  "gatesIn (SetStatus s # es) = gatesIn es" "gatesIn (Request q # es) = gatesIn es"
  "gatesIn (ZipWrite f c # es) = gatesIn es" "gatesIn (OnProgress p # es) = gatesIn es"
  by (simp_all add: gatesIn_def)

lemma replay_simps2:
  "list_all chunkEffect body \<Longrightarrow> replay (body @ es) z = replay es z"
  by (simp add: replay_append replay_chunk)

lemma last_chunk:
  "list_all chunkEffect body \<Longrightarrow> body \<noteq> [] \<Longrightarrow> last body \<noteq> PauseGate"
  by (induction body) (auto simp: chunkEffect_def)

lemma processFile1_trace:
  assumes run: "processFile1 ps lib svc resumed spine f st0 = (r, st')"
    and t0: "trace st0 = []"
  shows "iteration ps f (trace st') \<and>
         zipEntries st' = replay (trace st') (zipEntries st0) \<and>
         gates st' = gates st0 + gatesIn (trace st') \<and>
         trace st' \<noteq> [] \<and> r \<noteq> Some Completed \<and>
         (r = Some Suspended \<longrightarrow> last (trace st') = PauseGate) \<and>
         (last (trace st') = PauseGate \<longrightarrow>
            r = (if resumed (gates st0) then None else Some Suspended))"
  using run t0
  apply (simp add: processFile1_def Let_def perform_def
      split: option.splits if_splits prod.splits)
          apply (auto simp: gatesIn_simps gateOnly_def
      dropWhile_chunk dropWhile_boundary replay_simps2 gatesIn_append gatesIn_chunk
      replay_chunk last_chunk
      dest!: translateChunks1_trace split: if_splits)
  done

lemma runOK_Nil: "runOK ps resumed Completed g [] []"
  by (simp add: runOK_def)

lemma runOK_stop:
  assumes "iteration ps f seg" "oc \<noteq> Completed"
    "oc = Suspended \<longrightarrow> last seg = PauseGate"
    "last seg = PauseGate \<longrightarrow> \<not> resumed g \<and> oc = Suspended"
  shows "runOK ps resumed oc g (f # rest) [seg]"
  using assms by (simp add: runOK_def gatesIn_simps)

lemma runOK_step:
  assumes it: "iteration ps f seg"
    and g: "last seg = PauseGate \<longrightarrow> resumed g"
    and r: "runOK ps resumed oc (g + gatesIn seg) rest new"
  shows "runOK ps resumed oc g (f # rest) (seg # new)"
proof -
  from r have r1: "length new \<le> length rest"
    and r2: "\<forall>i<length new. iteration ps (rest ! i) (new ! i)"
    and r3: "oc = Completed \<longrightarrow> length new = length rest"
    and r5: "oc = Suspended \<longrightarrow> new \<noteq> [] \<and> last (last new) = PauseGate"
    and r6: "new = [] \<longrightarrow> oc = Completed"
    and r7: "\<forall>i<length new. last (new ! i) = PauseGate \<longrightarrow>
         (if resumed (g + gatesIn seg + gatesIn (concat (take i new)))
          then Suc i < length new \<or> (oc = Completed \<and> Suc i = length rest)
          else oc = Suspended \<and> Suc i = length new)"
    unfolding runOK_def by blast+
  have a: "\<forall>i<length (seg # new). iteration ps ((f # rest) ! i) ((seg # new) ! i)"
  proof (intro allI impI)
    fix i assume "i < length (seg # new)"
    then show "iteration ps ((f # rest) ! i) ((seg # new) ! i)"
      using it r2 by (cases i) simp_all
  qed
  have b: "\<forall>i<length (seg # new). last ((seg # new) ! i) = PauseGate \<longrightarrow>
         (if resumed (g + gatesIn (concat (take i (seg # new))))
          then Suc i < length (seg # new) \<or> (oc = Completed \<and> Suc i = length (f # rest))
          else oc = Suspended \<and> Suc i = length (seg # new))"
  proof (intro allI impI)
    fix i assume i: "i < length (seg # new)" and l: "last ((seg # new) ! i) = PauseGate"
    show "if resumed (g + gatesIn (concat (take i (seg # new))))
          then Suc i < length (seg # new) \<or> (oc = Completed \<and> Suc i = length (f # rest))
          else oc = Suspended \<and> Suc i = length (seg # new)"
    proof (cases i)
      case 0
      have "resumed g" using l g 0 by simp
      moreover have "new \<noteq> [] \<or> (oc = Completed \<and> rest = [])"
        using r3 r6 by auto
      ultimately show ?thesis unfolding 0 by (auto simp: gatesIn_simps)
    next
      case (Suc j)
      then have j: "j < length new" "last (new ! j) = PauseGate" using i l by auto
      have eq: "g + gatesIn (concat (take i (seg # new)))
                = g + gatesIn seg + gatesIn (concat (take j new))"
        unfolding Suc by (simp add: gatesIn_append)
      have "if resumed (g + gatesIn seg + gatesIn (concat (take j new)))
          then Suc j < length new \<or> (oc = Completed \<and> Suc j = length rest)
          else oc = Suspended \<and> Suc j = length new"
        using r7 j by blast
      then show ?thesis unfolding eq unfolding Suc by (cases "resumed (g + gatesIn seg + gatesIn (concat (take j new)))") simp_all
    qed
  qed
  have c: "length (seg # new) \<le> length (f # rest)" using r1 by simp
  have d: "oc = Completed \<longrightarrow> length (seg # new) = length (f # rest)" using r3 by simp
  have e: "seg # new = [] \<longrightarrow> oc = Completed" by simp
  have h: "oc = Suspended \<longrightarrow> seg # new \<noteq> [] \<and> last (last (seg # new)) = PauseGate"
    using r5 by simp
  show ?thesis
    unfolding runOK_def by (intro conjI a b c d e h)
qed

lemma processSpine1_trace:
  "processSpine1 ps lib svc resumed spine rest st segs0 = (oc, st', segs) \<Longrightarrow>
   \<exists>new. segs = segs0 @ new \<and> zipEntries st' = replay (concat new) (zipEntries st) \<and>
     runOK ps resumed oc (gates st) rest new"
proof (induction rest arbitrary: st segs0)
  case Nil
  then show ?case by (auto simp: runOK_Nil)
next
  case (Cons f rest)
  obtain r st1 where p: "processFile1 ps lib svc resumed spine f (st\<lparr>trace := []\<rparr>) = (r, st1)"
    by (cases "processFile1 ps lib svc resumed spine f (st\<lparr>trace := []\<rparr>)") auto
  note t = processFile1_trace [OF p, simplified]
  show ?case
  proof (cases r)
    case None
    then have "processSpine1 ps lib svc resumed spine rest st1 (segs0 @ [trace st1])
               = (oc, st', segs)"
      using Cons.prems p by simp
    from Cons.IH [OF this] obtain new where
      n: "segs = (segs0 @ [trace st1]) @ new"
        "zipEntries st' = replay (concat new) (zipEntries st1)"
        "runOK ps resumed oc (gates st1) rest new"
      by blast
    have "runOK ps resumed oc (gates st) (f # rest) (trace st1 # new)"
      apply (rule runOK_step)
      using t n None by (auto split: if_splits)
    then show ?thesis using n t by (auto simp: replay_append)
  next
    case (Some out)
    then have e: "oc = out" "st' = st1" "segs = segs0 @ [trace st1]"
      using Cons.prems p by auto
    have "runOK ps resumed oc (gates st) (f # rest) [trace st1]"
      apply (rule runOK_stop)
      using t e Some by (auto split: if_splits)
    then show ?thesis using e t by auto
  qed
qed

lemma boundary_gate:
  "boundary ps f rear \<Longrightarrow> m < length rear \<Longrightarrow> rear ! m = PauseGate \<Longrightarrow>
     Suc m = length rear \<and> m = (if onProgress ps then 2 else 1) \<and>
     (\<exists>c. rear ! 0 = ZipWrite f c) \<and>
     (onProgress ps \<longrightarrow> (\<exists>p. rear ! 1 = OnProgress p \<and> currentFile p = f))"
  by (induction ps f rear rule: boundary.induct)
     (auto simp: gateOnly_def nth_Cons split: nat.splits if_splits)

lemma chunk_not_gate: "list_all chunkEffect body \<Longrightarrow> m < length body \<Longrightarrow> body ! m \<noteq> PauseGate"
  by (induction body arbitrary: m) (auto simp: chunkEffect_def nth_Cons split: nat.splits)

lemma iteration_gate:
  assumes it: "iteration ps f seg" and k: "k < length seg" and g: "seg ! k = PauseGate"
  shows "Suc k = length seg \<and> (if onProgress ps then 2 else 1) \<le> k \<and>
     (\<exists>c. seg ! (k - (if onProgress ps then 2 else 1)) = ZipWrite f c) \<and>
     (onProgress ps \<longrightarrow> (\<exists>p. seg ! (k - 1) = OnProgress p \<and> currentFile p = f)) \<and>
     (\<forall>m<k - (if onProgress ps then 2 else 1). chunkEffect (seg ! m))"
proof -
  obtain s es where seg: "seg = SetStatus s # es"
    using it by (cases "(ps, f, seg)" rule: iteration.cases) auto
  define body where "body = takeWhile chunkEffect es"
  define rear where "rear = dropWhile chunkEffect es"
  have es: "es = body @ rear" by (simp add: body_def rear_def)
  have b: "list_all chunkEffect body"
    unfolding body_def list_all_iff by (auto dest: set_takeWhileD)
  obtain j where j: "k = Suc j" using g seg by (cases k) auto
  have jl: "j < length es" "es ! j = PauseGate" using k g seg j by auto
  have nb: "\<not> j < length body"
    using chunk_not_gate [OF b, of j] jl(2) es by (auto simp: nth_append)
  define m where "m = j - length body"
  have m: "m < length rear" "rear ! m = PauseGate" "j = length body + m"
    using jl nb es by (auto simp: m_def nth_append)
  have "rear = [] \<or> boundary ps f rear"
    using it unfolding seg rear_def by simp
  then have bd: "boundary ps f rear"
    using m(1) by auto
  note bg = boundary_gate [OF bd m(1) m(2)]
  let ?n = "if onProgress ps then 2 else 1 :: nat"
  have idx: "seg ! (Suc (length body) + q) = rear ! q" for q
    unfolding seg es by simp
  have kn: "k - ?n = Suc (length body) + 0" using bg j m by auto
  have k1: "onProgress ps \<Longrightarrow> k - 1 = Suc (length body) + 1" using bg j m by auto
  have c1: "Suc k = length seg" using bg seg es j m by simp
  have c2: "?n \<le> k" using bg j m by auto
  have c3: "\<exists>c. seg ! (k - ?n) = ZipWrite f c" unfolding kn idx using bg by blast
  have c4: "onProgress ps \<longrightarrow> (\<exists>p. seg ! (k - 1) = OnProgress p \<and> currentFile p = f)"
  proof
    assume o: "onProgress ps"
    show "\<exists>p. seg ! (k - 1) = OnProgress p \<and> currentFile p = f"
      unfolding k1 [OF o] idx using bg o by blast
  qed
  have c5: "\<forall>q<k - ?n. chunkEffect (seg ! q)"
  proof (intro allI impI)
    fix q assume q: "q < k - ?n"
    then have "q \<le> length body" unfolding kn by simp
    then show "chunkEffect (seg ! q)"
      using b unfolding seg es
      by (cases q) (auto simp: chunkEffect_def nth_append list_all_length)
  qed
  show ?thesis using c1 c2 c3 c4 c5 by blast
qed

text \<open>
  C9. In the version of the job that takes \<open>getPausePromise\<close>, whenever the manifest
  resolves: the effects of the run are those of one iteration per document of the spine,
  in order; a pause gate is the last effect of its iteration, directly after the
  write-back of that document and, when \<open>onProgress\<close> is given, its progress snapshot,
  and everything before the write-back is a status report or a request of the chunk
  loop, so no gate lies between the chunks of a document; the archive of the run is
  the initial one with the recorded write-backs applied, so nothing is written at a
  gate; a run is suspended only at a gate, and after a gate that is resumed the next
  iteration, for the next document of the spine, follows, or the job completes when
  the document was the last.
\<close>

theorem pause_gate_only_at_document_boundaries:
  assumes run: "translateEpub1 ps parse lib svc resumed epubFile = (oc, z, segs)"
    and sp: "resolveSpine parse epubFile = Inr spine"
  shows "length segs \<le> length spine \<and>
    (\<forall>i<length segs. iteration ps (spine ! i) (segs ! i)) \<and>
    (\<forall>i<length segs. \<forall>k<length (segs ! i). segs ! i ! k = PauseGate \<longrightarrow>
        Suc k = length (segs ! i) \<and> (if onProgress ps then 2 else 1) \<le> k \<and>
        (\<exists>c. segs ! i ! (k - (if onProgress ps then 2 else 1)) = ZipWrite (spine ! i) c) \<and>
        (onProgress ps \<longrightarrow>
           (\<exists>p. segs ! i ! (k - 1) = OnProgress p \<and> currentFile p = spine ! i)) \<and>
        (\<forall>m<k - (if onProgress ps then 2 else 1). chunkEffect (segs ! i ! m))) \<and>
    z = replay (concat segs) epubFile \<and>
    (oc = Suspended \<longrightarrow> segs \<noteq> [] \<and> last (last segs) = PauseGate) \<and>
    (oc = Completed \<longrightarrow> length segs = length spine) \<and>
    (\<forall>i<length segs. last (segs ! i) = PauseGate \<longrightarrow>
        (if resumed (gatesIn (concat (take i segs)))
         then Suc i < length segs \<or> (oc = Completed \<and> Suc i = length spine)
         else oc = Suspended \<and> Suc i = length segs))"
proof -
  let ?st0 = "\<lparr>zipEntries = epubFile, trace = [], calls = 0, gates = 0\<rparr>"
  obtain st where p: "processSpine1 ps lib svc resumed spine spine ?st0 [] = (oc, st, segs)"
    and z: "z = zipEntries st"
    using run sp by (auto simp: translateEpub1_def split: prod.splits)
  from processSpine1_trace [OF p]
  have rp: "zipEntries st = replay (concat segs) epubFile"
    and ok: "runOK ps resumed oc 0 spine segs"
    by auto
  from ok have r1: "length segs \<le> length spine"
    and r2: "\<forall>i<length segs. iteration ps (spine ! i) (segs ! i)"
    and r3: "oc = Completed \<longrightarrow> length segs = length spine"
    and r5: "oc = Suspended \<longrightarrow> segs \<noteq> [] \<and> last (last segs) = PauseGate"
    and r7: "\<forall>i<length segs. last (segs ! i) = PauseGate \<longrightarrow>
         (if resumed (0 + gatesIn (concat (take i segs)))
          then Suc i < length segs \<or> (oc = Completed \<and> Suc i = length spine)
          else oc = Suspended \<and> Suc i = length segs)"
    unfolding runOK_def by blast+
  have g: "\<forall>i<length segs. \<forall>k<length (segs ! i). segs ! i ! k = PauseGate \<longrightarrow>
        Suc k = length (segs ! i) \<and> (if onProgress ps then 2 else 1) \<le> k \<and>
        (\<exists>c. segs ! i ! (k - (if onProgress ps then 2 else 1)) = ZipWrite (spine ! i) c) \<and>
        (onProgress ps \<longrightarrow>
           (\<exists>p. segs ! i ! (k - 1) = OnProgress p \<and> currentFile p = spine ! i)) \<and>
        (\<forall>m<k - (if onProgress ps then 2 else 1). chunkEffect (segs ! i ! m))"
    using r2 iteration_gate by blast
  have r7': "\<forall>i<length segs. last (segs ! i) = PauseGate \<longrightarrow>
        (if resumed (gatesIn (concat (take i segs)))
         then Suc i < length segs \<or> (oc = Completed \<and> Suc i = length spine)
         else oc = Suspended \<and> Suc i = length segs)"
    using r7 by simp
  show ?thesis
    using r1 r2 g rp z r5 r3 r7' by blast
qed

lemma resolve_twoDocuments:
  "resolveSpine parseMarkup twoDocuments = Inr [js ''a.html'', js ''b.html'']"
  by (simp add: resolveSpine_def twoDocuments_def rootfilePath_def cheerio_load_def parse_defs
      CONTAINER_PATH_def selectTag_def selectChild_def allElems_def cheerio_attr_def
      manifestOf_def spineOf_def opfDirOf_def List.map_filter_def)

lemma doc_a: "twoDocuments (js ''a.html'') = Some (js ''<body><p>Hi</p></body>'')"
  by (simp add: twoDocuments_def CONTAINER_PATH_def js_def)

lemma doc_b: "twoDocuments (js ''b.html'') = Some (js ''<body><p>Yo</p></body>'')"
  by (simp add: twoDocuments_def CONTAINER_PATH_def js_def)

lemma slice_one: "sliceLoop (Fin 1) (Fin 0) [x] [] = Some [[x]]"
  by (simp add: sliceLoop.simps jsSlice_def)

lemma load_a:
  "c_load sampleLib (js ''<body><p>Hi</p></body>'')
     = \<lparr>roots = [Element 0 (js ''body'') [] [Element 1 (js ''p'') [] [Text (js ''Hi'')]]],
        fresh = 2\<rparr>"
  by (simp add: sampleLib_def cheerio_load_def parse_defs)

lemma select_a:
  "c_select sampleLib
     \<lparr>roots = [Element 0 (js ''body'') [] [Element 1 (js ''p'') [] [Text t]]], fresh = 2\<rparr>
   = [1]"
  by (simp add: sampleLib_def selectTag_def allElems_def js_def)

lemma chunks_one:
  "translateChunks1 pausing lib fullService f 1 0 [[n]] d st = (r, d', st') \<Longrightarrow>
     r = None \<and> length (trace st') = length (trace st) + 2 \<and> gates st' = gates st
     \<and> zipEntries st' = zipEntries st"
  by (auto simp: Let_def fullService_def perform_def)

lemma process_one:
  assumes z: "zipEntries st f = Some c"
    and l: "c_load sampleLib c
            = \<lparr>roots = [Element 0 (js ''body'') [] [Element 1 (js ''p'') [] [Text t]]],
               fresh = 2\<rparr>"
    and t: "trace st = []"
  shows "fst (processFile1 pausing sampleLib fullService resumed spine f st)
           = (if resumed (gates st) then None else Some Suspended) \<and>
         length (trace (snd (processFile1 pausing sampleLib fullService resumed spine f st))) = 6 \<and>
         last (trace (snd (processFile1 pausing sampleLib fullService resumed spine f st)))
           = PauseGate \<and>
         gates (snd (processFile1 pausing sampleLib fullService resumed spine f st))
           = Suc (gates st) \<and>
         (\<forall>g. g \<noteq> f \<longrightarrow>
            zipEntries (snd (processFile1 pausing sampleLib fullService resumed spine f st)) g
            = zipEntries st g)"
proof -
  let ?d = "\<lparr>roots = [Element 0 (js ''body'') [] [Element 1 (js ''p'') [] [Text t]]],
               fresh = 2\<rparr>"
  let ?st = "perform (SetStatus (js ''Processing: '' @ f)) st"
  obtain r d' st' where c: "translateChunks1 pausing sampleLib fullService f 1 0 [[1]] ?d ?st
      = (r, d', st')"
    by (cases "translateChunks1 pausing sampleLib fullService f 1 0 [[1]] ?d ?st") auto
  note k = chunks_one [OF c]
  have p: "chunkSize pausing = Fin 1" "onProgress pausing" "getPausePromise pausing"
    by (simp_all add: pausing_def)
  show ?thesis
    unfolding processFile1_def Let_def
    using z l t k c p
    by (simp add: perform_def select_a [unfolded One_nat_def] slice_one
        del: translateChunks1.simps)
qed

lemma load_b:
  "c_load sampleLib (js ''<body><p>Yo</p></body>'')
     = \<lparr>roots = [Element 0 (js ''body'') [] [Element 1 (js ''p'') [] [Text (js ''Yo'')]]],
        fresh = 2\<rparr>"
  by (simp add: sampleLib_def cheerio_load_def parse_defs)

lemma paused_run:
  "fst (translateEpub1 pausing parseMarkup sampleLib fullService firstOnly twoDocuments)
     = Suspended \<and>
   map length
     (snd (snd (translateEpub1 pausing parseMarkup sampleLib fullService firstOnly twoDocuments)))
     = [6, 6] \<and>
   map last
     (snd (snd (translateEpub1 pausing parseMarkup sampleLib fullService firstOnly twoDocuments)))
     = [PauseGate, PauseGate]"
proof -
  let ?a = "js ''a.html''" and ?b = "js ''b.html''"
  let ?spine = "[?a, ?b]"
  let ?st0 = "\<lparr>zipEntries = twoDocuments, trace = [], calls = 0, gates = 0\<rparr>"
  obtain r1 st1 where
    p1: "processFile1 pausing sampleLib fullService firstOnly ?spine ?a (?st0\<lparr>trace := []\<rparr>)
         = (r1, st1)"
    by (cases "processFile1 pausing sampleLib fullService firstOnly ?spine ?a
                 (?st0\<lparr>trace := []\<rparr>)") auto
  have ab: "?b \<noteq> ?a" by (simp add: js_def)
  from process_one [of "?st0\<lparr>trace := []\<rparr>" ?a _ _ firstOnly ?spine, OF _ load_a]
  have f1: "r1 = None" "length (trace st1) = 6" "last (trace st1) = PauseGate"
    "gates st1 = Suc 0" "zipEntries st1 ?b = twoDocuments ?b"
    using ab unfolding p1 by (simp_all add: doc_a firstOnly_def)
  obtain r2 st2 where
    p2: "processFile1 pausing sampleLib fullService firstOnly ?spine ?b (st1\<lparr>trace := []\<rparr>)
         = (r2, st2)"
    by (cases "processFile1 pausing sampleLib fullService firstOnly ?spine ?b
                 (st1\<lparr>trace := []\<rparr>)") auto
  from process_one [of "st1\<lparr>trace := []\<rparr>" ?b _ _ firstOnly ?spine, OF _ load_b]
  have f2: "r2 = Some Suspended" "length (trace st2) = 6" "last (trace st2) = PauseGate"
    unfolding p2 by (simp_all add: f1 doc_b firstOnly_def)
  have "translateEpub1 pausing parseMarkup sampleLib fullService firstOnly twoDocuments
        = (Suspended, zipEntries st2, [trace st1, trace st2])"
    unfolding translateEpub1_def resolve_twoDocuments
    using p1 p2 f1(1) f2(1) by simp
  then show ?thesis using f1 f2 by simp
qed

theorem pause_gate_only_at_document_boundaries_witness:
  "fst (translateEpub1 pausing parseMarkup sampleLib fullService firstOnly twoDocuments)
     = Suspended \<and>
   resolveSpine parseMarkup twoDocuments = Inr [js ''a.html'', js ''b.html''] \<and>
   map last
     (snd (snd (translateEpub1 pausing parseMarkup sampleLib fullService firstOnly twoDocuments)))
     = [PauseGate, PauseGate] \<and>
   iteration pausing (js ''a.html'')
     (snd (snd (translateEpub1 pausing parseMarkup sampleLib fullService firstOnly
                  twoDocuments)) ! 0) \<and>
   iteration pausing (js ''b.html'')
     (snd (snd (translateEpub1 pausing parseMarkup sampleLib fullService firstOnly
                  twoDocuments)) ! 1) \<and>
   fst (snd (translateEpub1 pausing parseMarkup sampleLib fullService firstOnly twoDocuments))
     = replay (concat (snd (snd (translateEpub1 pausing parseMarkup sampleLib fullService
                                   firstOnly twoDocuments)))) twoDocuments"
proof -
  let ?r = "translateEpub1 pausing parseMarkup sampleLib fullService firstOnly twoDocuments"
  have h: "?r = (fst ?r, fst (snd ?r), snd (snd ?r))" by simp
  have "length (map last (snd (snd ?r))) = 2" using paused_run by simp
  then have len: "length (snd (snd ?r)) = 2" by simp
  note t = pause_gate_only_at_document_boundaries [OF h resolve_twoDocuments]
  from t have it: "\<forall>i<length (snd (snd ?r)).
      iteration pausing ([js ''a.html'', js ''b.html''] ! i) (snd (snd ?r) ! i)"
    and rp: "fst (snd ?r) = replay (concat (snd (snd ?r))) twoDocuments"
    by blast+
  have a: "iteration pausing (js ''a.html'') (snd (snd ?r) ! 0)"
    using it [rule_format, of 0] len by simp
  have b: "iteration pausing (js ''b.html'') (snd (snd ?r) ! 1)"
    using it [rule_format, of 1] len by simp
  show ?thesis using a b rp paused_run resolve_twoDocuments by simp
qed

section \<open>A translated array shorter than the chunk\<close>

lemma translateChunks_completes:
  "\<forall>n r e. svc n r \<noteq> Throws e \<Longrightarrow>
   fst (translateChunks ps parse svc filePath chunks i remaining d st) = None"
proof (induction remaining arbitrary: i d st)
  case 0
  then show ?case by simp
next
  case (Suc remaining)
  then show ?case by (auto simp: Let_def split: response.splits)
qed

lemma processFile_completes:
  "\<forall>n r e. svc n r \<noteq> Throws e \<Longrightarrow>
   fst (processFile ps parse render svc spine filePath st) = None"
proof -
  assume a: "\<forall>n r e. svc n r \<noteq> Throws e"
  have h: "\<And>chunks i k d s e y z.
      translateChunks ps parse svc filePath chunks i k d s = (Some e, y, z) \<Longrightarrow> False"
    using translateChunks_completes[OF a] by (metis fst_conv option.distinct(1))
  show ?thesis
    by (auto simp: processFile_def Let_def split: option.splits prod.splits dest: h)
qed

lemma processSpine_completes:
  "\<forall>n r e. svc n r \<noteq> Throws e \<Longrightarrow>
   fst (processSpine ps parse render svc spine rest st) = None"
proof (induction rest arbitrary: st)
  case Nil
  then show ?case by simp
next
  case (Cons filePath rest)
  have "fst (processFile ps parse render svc spine filePath st) = None"
    using Cons.prems by (rule processFile_completes)
  then show ?case using Cons by (auto split: prod.splits option.splits)
qed

lemma job_completes:
  "resolveSpine parse z = Inr spine \<Longrightarrow> \<forall>n r e. svc n r \<noteq> Throws e \<Longrightarrow>
   fst (translateEpub ps parse render svc z) = None"
  by (simp add: translateEpub_def perform_def Let_def processSpine_completes)

lemma resolve_two: "resolveSpine parseMarkup twoParagraphs = Inr [js ''a.html'']"
  by (simp add: resolveSpine_def twoParagraphs_def rootfilePath_def cheerio_load_def parse_defs
      CONTAINER_PATH_def selectTag_def selectChild_def allElems_def cheerio_attr_def
      manifestOf_def spineOf_def opfDirOf_def List.map_filter_def)

lemmas job_defs = translateEpub_def processFile_def perform_def Let_def chunkBlocks_def
  emptyChunk_def MAX_CHARS_PER_CHUNK_def MAX_PARAS_PER_CHUNK_def applyChunk_def applyOne_def
  translationAt_def replaceBlock_def cheerio_html_def manipulate_def cheerio_load_def
  normalizeText_def nbspMatch_def statuses_def renderXml_def bodyHtml_def selectTag_def
  chunkMessages_def SYSTEM_PROMPT_def params0_def decimal.simps

lemma two_doc: "twoParagraphs (js ''a.html'') = Some (js ''<body><p>Hi</p><p>Yo</p></body>'')"
  by (simp add: twoParagraphs_def CONTAINER_PATH_def js_def)

lemma short_run:
  "fst (translateEpub params0 parseMarkup renderXml shortService twoParagraphs) = None \<and>
   statuses (trace (snd (translateEpub params0 parseMarkup renderXml shortService twoParagraphs)))
     = [js ''Initializing...'', js ''Unpacking EPUB...'', js ''Processing: a.html'',
        js ''Translating chunk 1/1 of a.html...'', js ''Processed a.html''] \<and>
   zipEntries (snd (translateEpub params0 parseMarkup renderXml shortService twoParagraphs))
     (js ''a.html'') = Some (js ''<body><p>Salut</p><p/></body>'')"
  by (simp add: job_defs resolve_two[unfolded js_def, simplified] two_doc[unfolded js_def, simplified] shortService_def select_defs strip_defs parse_defs)

lemma strip_empty: "stripBlockTags [] = []"
  by (simp add: stripBlockTags_def trim_def)

lemma full_run_statuses:
  "statuses (trace (snd (translateEpub params0 parseMarkup renderXml fullService twoParagraphs)))
     = [js ''Initializing...'', js ''Unpacking EPUB...'', js ''Processing: a.html'',
        js ''Translating chunk 1/1 of a.html...'', js ''Processed a.html'']"
  by (simp add: job_defs resolve_two[unfolded js_def, simplified]
      two_doc[unfolded js_def, simplified] fullService_def select_defs strip_defs parse_defs)

text \<open>
  C5, as the claim states it, fails: a run in which the service returns one translation
  for a chunk of two blocks completes, the second paragraph is emptied, and the status
  texts of the run are those of the run in which the service returns two translations:
  nothing records the mismatch.
\<close>

theorem mismatch_not_recorded:
  "fst (translateEpub params0 parseMarkup renderXml shortService twoParagraphs) = None \<and>
   zipEntries (snd (translateEpub params0 parseMarkup renderXml shortService twoParagraphs))
     (js ''a.html'') = Some (js ''<body><p>Salut</p><p/></body>'') \<and>
   statuses (trace (snd (translateEpub params0 parseMarkup renderXml shortService twoParagraphs)))
     = [js ''Initializing...'', js ''Unpacking EPUB...'', js ''Processing: a.html'',
        js ''Translating chunk 1/1 of a.html...'', js ''Processed a.html''] \<and>
   statuses (trace (snd (translateEpub params0 parseMarkup renderXml shortService twoParagraphs)))
     = statuses (trace (snd (translateEpub params0 parseMarkup renderXml fullService twoParagraphs)))"
  using short_run full_run_statuses by simp

lemma shortService_answers: "\<forall>n r e. shortService n r \<noteq> Throws e"
  by (simp add: shortService_def)

subsection \<open>Identities under manipulation\<close>

lemma idsIn_simps [simp]:
  "idsIn [] = []"
  "idsIn (Element i n as cs # xs) = i # idsIn cs @ idsIn xs"
  "idsIn (Text s # xs) = idsIn xs" "idsIn (Comment s # xs) = idsIn xs"
  "idsIn (Directive s # xs) = idsIn xs"
  by (simp_all add: idsIn_def allElems_def)

lemma idsIn_append [simp]: "idsIn (xs @ ys) = idsIn xs @ idsIn ys"
  by (simp add: idsIn_def allElems_def)

lemma idsIn_Cons: "idsIn (x # xs) = idsIn [x] @ idsIn xs"
  by (cases x) simp_all

lemma idsIn_element: "isElement e \<Longrightarrow> idsIn [e] = nodeId e # idsIn (childrenOf e)"
  by (cases e) simp_all

lemma label_ids:
  "labelNode k x = (x', k') \<Longrightarrow>
     k \<le> k' \<and> set (idsIn [x']) \<subseteq> {k..<k'} \<and> distinct (idsIn [x'])"
  "labelNodes k xs = (xs', k') \<Longrightarrow>
     k \<le> k' \<and> set (idsIn xs') \<subseteq> {k..<k'} \<and> distinct (idsIn xs')"
proof (induction k x and k xs arbitrary: x' k' and xs' k' rule: labelNode_labelNodes.induct)
  case (1 k i n as cs)
  obtain cs' k1 where c: "labelNodes (Suc k) cs = (cs', k1)"
    by (cases "labelNodes (Suc k) cs") auto
  from "1.IH" [OF c] "1.prems" c show ?case by (auto simp: subset_iff)
next
  case (6 k x xs)
  obtain y k1 where a: "labelNode k x = (y, k1)" by (cases "labelNode k x") auto
  obtain ys k2 where b: "labelNodes k1 xs = (ys, k2)" by (cases "labelNodes k1 xs") auto
  note i1 = "6.IH"(1) [OF a]
  note i2 = "6.IH"(2) [OF a [symmetric] b]
  have e: "xs' = y # ys" "k' = k2" using "6.prems" a b by auto
  have s: "set (idsIn [y]) \<subseteq> {k..<k1}" "set (idsIn ys) \<subseteq> {k1..<k2}" using i1 i2 by auto
  then have dj: "set (idsIn [y]) \<inter> set (idsIn ys) = {}" by fastforce
  show ?case
    unfolding e idsIn_Cons [of y ys]
    using i1 i2 s dj by (auto simp: subset_iff)
qed auto

lemma find_ids:
  "findElem i x = None \<longleftrightarrow> i \<notin> set (idsIn [x])"
  "findIn i ns = None \<longleftrightarrow> i \<notin> set (idsIn ns)"
proof (induction i x and i ns rule: findElem_findIn.induct)
  case (6 i x xs)
  then show ?case by (subst idsIn_Cons) (auto split: option.splits)
qed auto

lemma found_in_elems:
  "findElem i x = Some e \<Longrightarrow> e \<in> set (allElems [x])"
  "findIn i ns = Some e \<Longrightarrow> e \<in> set (allElems ns)"
  by (induction i x and i ns rule: findElem_findIn.induct)
     (auto simp: allElems_def split: option.splits if_splits)

lemma idsIn_concat: "set (idsIn ns) = (\<Union>x\<in>set ns. set (idsIn [x]))"
  by (induction ns) (simp, subst idsIn_Cons, simp)

lemma elem_ids: "e \<in> set (elemsOf x) \<Longrightarrow> set (idsIn [e]) \<subseteq> set (idsIn [x])"
proof (induction x rule: elemsOf.induct)
  case (1 i n as cs)
  show ?case
  proof (cases "e = Element i n as cs")
    case True
    then show ?thesis by simp
  next
    case False
    then obtain c where c: "c \<in> set cs" "e \<in> set (elemsOf c)" using "1.prems" by auto
    from "1.IH" [OF c] have "set (idsIn [e]) \<subseteq> set (idsIn [c])" .
    also have "\<dots> \<subseteq> set (idsIn cs)" using c(1) by (subst (2) idsIn_concat) blast
    finally show ?thesis by auto
  qed
qed simp_all

lemma elems_ids: "e \<in> set (allElems ns) \<Longrightarrow> set (idsIn [e]) \<subseteq> set (idsIn ns)"
proof -
  assume "e \<in> set (allElems ns)"
  then obtain x where x: "x \<in> set ns" "e \<in> set (elemsOf x)" by (auto simp: allElems_def)
  have "set (idsIn [e]) \<subseteq> set (idsIn [x])" using x(2) by (rule elem_ids)
  also have "\<dots> \<subseteq> set (idsIn ns)" using x(1) by (subst (2) idsIn_concat) blast
  finally show ?thesis .
qed

lemma elems_are_elements: "e \<in> set (allElems ns) \<Longrightarrow> isElement e"
proof -
  have "e \<in> set (elemsOf x) \<Longrightarrow> isElement e" for x
    by (induction x rule: elemsOf.induct) auto
  then show "e \<in> set (allElems ns) \<Longrightarrow> isElement e" by (auto simp: allElems_def)
qed

lemma unique_by_id:
  assumes "distinct (idsIn ns)" "findIn i ns = Some b" "e \<in> set (allElems ns)" "nodeId e = i"
  shows "e = b"
proof -
  have "inj_on nodeId (set (allElems ns))"
    using assms(1) by (simp add: idsIn_def distinct_map)
  moreover have "b \<in> set (allElems ns)" "nodeId b = i"
    using assms(2) found_in_elems(2) found_is_element(2) by auto
  ultimately show ?thesis using assms(3,4) by (auto dest: inj_onD)
qed

lemma upd_list_subset:
  "(\<And>x. x \<in> set xs \<Longrightarrow> set (idsIn (updNode i f x)) \<subseteq> set (idsIn [x]) \<union> N) \<Longrightarrow>
   set (idsIn (concat (map (updNode i f) xs))) \<subseteq> set (idsIn xs) \<union> N"
proof (induction xs)
  case Nil
  then show ?case by simp
next
  case (Cons x xs)
  have a: "set (idsIn (updNode i f x)) \<subseteq> set (idsIn [x]) \<union> N" using Cons.prems by simp
  have b: "set (idsIn (concat (map (updNode i f) xs))) \<subseteq> set (idsIn xs) \<union> N"
    using Cons by simp
  show ?case using a b by (subst idsIn_Cons) auto
qed

lemma upd_subset:
  assumes f: "\<And>e. isElement e \<Longrightarrow> set (idsIn (f e)) \<subseteq> set (idsIn [e]) \<union> N"
  shows "set (idsIn (updNode i f x)) \<subseteq> set (idsIn [x]) \<union> N"
proof (induction x rule: elemsOf.induct)
  case (1 j n as cs)
  show ?case
  proof (cases "i = j")
    case True
    then show ?thesis using f [of "Element j n as cs"] by simp
  next
    case False
    have "set (idsIn (concat (map (updNode i f) cs))) \<subseteq> set (idsIn cs) \<union> N"
      by (rule upd_list_subset) (use "1.IH" False in auto)
    then show ?thesis using False by auto
  qed
qed simp_all

lemma upd_subset_list:
  assumes f: "\<And>e. isElement e \<Longrightarrow> set (idsIn (f e)) \<subseteq> set (idsIn [e]) \<union> N"
  shows "set (idsIn (concat (map (updNode i f) xs))) \<subseteq> set (idsIn xs) \<union> N"
  by (rule upd_list_subset) (rule upd_subset [OF f])

lemma upd_list_distinct:
  assumes f: "\<And>e. isElement e \<Longrightarrow> set (idsIn (f e)) \<subseteq> set (idsIn [e]) \<union> N"
    and p: "\<And>x. x \<in> set xs \<Longrightarrow> distinct (idsIn [x]) \<Longrightarrow> set (idsIn [x]) \<inter> N = {} \<Longrightarrow>
              distinct (idsIn (updNode i f x))"
    and d: "distinct (idsIn xs)" and n: "set (idsIn xs) \<inter> N = {}"
  shows "distinct (idsIn (concat (map (updNode i f) xs)))"
  using p d n
proof (induction xs)
  case Nil
  then show ?case by simp
next
  case (Cons x xs)
  have dx: "distinct (idsIn [x])" "distinct (idsIn xs)" "set (idsIn [x]) \<inter> set (idsIn xs) = {}"
    using Cons.prems(2) by (subst (asm) idsIn_Cons, simp)+
  have nx: "set (idsIn [x]) \<inter> N = {}" "set (idsIn xs) \<inter> N = {}"
    using Cons.prems(3) by (subst (asm) idsIn_Cons, auto)+
  have a: "distinct (idsIn (updNode i f x))" using Cons.prems(1) dx nx by simp
  have b: "distinct (idsIn (concat (map (updNode i f) xs)))"
    using Cons.IH Cons.prems(1) dx nx by simp
  have c: "set (idsIn (updNode i f x)) \<inter> set (idsIn (concat (map (updNode i f) xs))) = {}"
  proof (cases "i \<in> set (idsIn [x])")
    case True
    then have "i \<notin> set (idsIn xs)" using dx(3) by auto
    then have "concat (map (updNode i f) xs) = xs" by (simp add: upd_absent(2) find_ids(2))
    moreover have "set (idsIn (updNode i f x)) \<subseteq> set (idsIn [x]) \<union> N"
      by (rule upd_subset [OF f])
    ultimately show ?thesis using dx(3) nx by auto
  next
    case False
    then have "updNode i f x = [x]" by (simp add: upd_absent(1) find_ids(1))
    moreover have "set (idsIn (concat (map (updNode i f) xs))) \<subseteq> set (idsIn xs) \<union> N"
      by (rule upd_subset_list [OF f])
    ultimately show ?thesis using dx(3) nx by auto
  qed
  show ?case using a b c by simp
qed

lemma upd_distinct:
  assumes f: "\<And>e. isElement e \<Longrightarrow> set (idsIn (f e)) \<subseteq> set (idsIn [e]) \<union> N"
    and g: "\<And>e. isElement e \<Longrightarrow> distinct (idsIn [e]) \<Longrightarrow> set (idsIn [e]) \<inter> N = {} \<Longrightarrow>
              distinct (idsIn (f e))"
  shows "distinct (idsIn [x]) \<Longrightarrow> set (idsIn [x]) \<inter> N = {} \<Longrightarrow> distinct (idsIn (updNode i f x))"
proof (induction x rule: elemsOf.induct)
  case (1 j n as cs)
  show ?case
  proof (cases "i = j")
    case True
    then show ?thesis using g [of "Element j n as cs"] "1.prems" by simp
  next
    case False
    have d: "distinct (idsIn cs)" "j \<notin> set (idsIn cs)" using "1.prems"(1) by auto
    have n: "set (idsIn cs) \<inter> N = {}" "j \<notin> N" using "1.prems"(2) by auto
    have "distinct (idsIn (concat (map (updNode i f) cs)))"
      by (rule upd_list_distinct [OF f _ d(1) n(1)]) (use "1.IH" False in auto)
    moreover have "set (idsIn (concat (map (updNode i f) cs))) \<subseteq> set (idsIn cs) \<union> N"
      by (rule upd_subset_list [OF f])
    ultimately show ?thesis using False d n by auto
  qed
qed simp_all

lemma upd_distinct_list:
  assumes f: "\<And>e. isElement e \<Longrightarrow> set (idsIn (f e)) \<subseteq> set (idsIn [e]) \<union> N"
    and g: "\<And>e. isElement e \<Longrightarrow> distinct (idsIn [e]) \<Longrightarrow> set (idsIn [e]) \<inter> N = {} \<Longrightarrow>
              distinct (idsIn (f e))"
    and d: "distinct (idsIn xs)" and n: "set (idsIn xs) \<inter> N = {}"
  shows "distinct (idsIn (concat (map (updNode i f) xs)))"
proof (rule upd_list_distinct [OF f _ d n])
  fix x assume a: "distinct (idsIn [x])" "set (idsIn [x]) \<inter> N = {}"
  show "distinct (idsIn (updNode i f x))" by (rule upd_distinct [OF f g a])
qed

lemma allElems_simps [simp]:
  "allElems [] = []"
  "allElems (Element i n as cs # xs) = Element i n as cs # allElems cs @ allElems xs"
  "allElems (Text s # xs) = allElems xs" "allElems (Comment s # xs) = allElems xs"
  "allElems (Directive s # xs) = allElems xs"
  by (simp_all add: allElems_def)

lemma allElems_Cons: "allElems (x # xs) = allElems [x] @ allElems xs"
  by (simp add: allElems_def)

lemma allElems_append: "allElems (xs @ ys) = allElems xs @ allElems ys"
  by (simp add: allElems_def)

lemma child_ids: "c \<in> set cs \<Longrightarrow> set (idsIn [c]) \<subseteq> set (idsIn cs)"
  by (subst (2) idsIn_concat) blast

lemma idsIn_concat_lists: "set (idsIn (concat ys)) = (\<Union>y\<in>set ys. set (idsIn y))"
  by (induction ys) simp_all

lemma upd_not_in:
  "i' \<notin> set (idsIn [x]) \<Longrightarrow>
   (\<And>e. e \<in> set (allElems [x]) \<Longrightarrow> nodeId e = i \<Longrightarrow> i' \<notin> set (idsIn (f e))) \<Longrightarrow>
   i' \<notin> set (idsIn (updNode i f x))"
proof (induction x rule: elemsOf.induct)
  case (1 j n as cs)
  show ?case
  proof (cases "i = j")
    case True
    then show ?thesis using "1.prems"(2) [of "Element j n as cs"] by simp
  next
    case False
    have "i' \<notin> set (idsIn (updNode i f c))" if c: "c \<in> set cs" for c
    proof (rule "1.IH" [OF c])
      show "i' \<notin> set (idsIn [c])"
        using "1.prems"(1) child_ids [OF c] by auto
      fix e assume e: "e \<in> set (allElems [c])" "nodeId e = i"
      have "e \<in> set (allElems cs)" using e(1) c by (auto simp: allElems_def)
      then show "i' \<notin> set (idsIn (f e))" using "1.prems"(2) e(2) by simp
    qed
    then have "i' \<notin> set (idsIn (concat (map (updNode i f) cs)))"
      by (simp add: idsIn_concat_lists)
    then show ?thesis using False "1.prems"(1) by auto
  qed
qed simp_all

lemma upd_frame:
  assumes a: "i \<notin> set (idsIn [E])"
  shows "findElem i' x = Some E \<Longrightarrow>
     (\<And>e. e \<in> set (allElems [x]) \<Longrightarrow> nodeId e = i \<Longrightarrow>
        i' \<notin> set (idsIn [e]) \<and> i' \<notin> set (idsIn (f e))) \<Longrightarrow>
     findIn i' (updNode i f x) = Some E"
    and "findIn i' ns = Some E \<Longrightarrow>
     (\<And>e. e \<in> set (allElems ns) \<Longrightarrow> nodeId e = i \<Longrightarrow>
        i' \<notin> set (idsIn [e]) \<and> i' \<notin> set (idsIn (f e))) \<Longrightarrow>
     findIn i' (concat (map (updNode i f) ns)) = Some E"
proof (induction i' x and i' ns rule: findElem_findIn.induct)
  case (1 i' j n as cs)
  show ?case
  proof (cases "i = j")
    case True
    have "i' \<notin> set (idsIn [Element j n as cs])"
      using "1.prems"(2) [of "Element j n as cs"] True by simp
    then have "findElem i' (Element j n as cs) = None" by (rule find_ids(1) [THEN iffD2])
    then show ?thesis using "1.prems"(1) by simp
  next
    case False
    show ?thesis
    proof (cases "i' = j")
      case True
      then have E: "E = Element j n as cs" using "1.prems"(1) by simp
      then have "i \<notin> set (idsIn cs)" using a by simp
      then have "concat (map (updNode i f) cs) = cs" by (simp add: upd_absent(2) find_ids(2))
      then show ?thesis using False True E by simp
    next
      case n: False
      then have c: "findIn i' cs = Some E" using "1.prems"(1) by simp
      have "findIn i' (concat (map (updNode i f) cs)) = Some E"
        by (rule "1.IH" [OF n c]) (use "1.prems"(2) in simp)
      then show ?thesis using False n by simp
    qed
  qed
next
  case (6 i' x xs)
  have el: "set (allElems (x # xs)) = set (allElems [x]) \<union> set (allElems xs)"
    by (subst allElems_Cons) simp
  show ?case
  proof (cases "findElem i' x")
    case None
    then have xs: "findIn i' xs = Some E" using "6.prems"(1) by simp
    have "findIn i' (concat (map (updNode i f) xs)) = Some E"
      by (rule "6.IH"(2) [OF None xs]) (use "6.prems"(2) el in blast)
    moreover have "i' \<notin> set (idsIn (updNode i f x))"
      by (rule upd_not_in) (use None "6.prems"(2) el in \<open>auto simp: find_ids(1)\<close>)
    then have "findIn i' (updNode i f x) = None" by (simp add: find_ids(2))
    ultimately show ?thesis by (simp add: findIn_append)
  next
    case (Some e)
    then have e: "e = E" using "6.prems"(1) by simp
    have "findIn i' (updNode i f x) = Some E"
      by (rule "6.IH"(1)) (use Some e "6.prems"(2) el in auto)
    then show ?thesis by (simp add: findIn_append)
  qed
qed simp_all

lemma followers_ids:
  "followers i x = None \<longleftrightarrow> i \<notin> set (idsIn (childrenOf x))"
  "followersIn i ns = None \<longleftrightarrow> i \<notin> set (idsIn ns)"
proof (induction i x and i ns rule: followers_followersIn.induct)
  case (6 i x xs)
  show ?case
  proof (cases x)
    case (Element j n as cs)
    then show ?thesis using 6 by (auto split: option.splits)
  qed (use 6 in \<open>auto split: option.splits\<close>)
qed auto

lemma followers_skip:
  "findIn i as = None \<Longrightarrow> followersIn i (as @ bs) = followersIn i bs"
proof (induction as)
  case Nil
  then show ?case by simp
next
  case (Cons a as)
  then have n: "findElem i a = None" "findIn i as = None" by (auto split: option.splits)
  show ?case using absent_followers(1) [OF n(1)] Cons.IH [OF n(2)] by auto
qed

lemma followers_frame:
  assumes a: "i \<notin> set (idsIn [x0])"
  shows "followers i' x = Some (x0 # rest) \<Longrightarrow> \<not> (isElement x \<and> nodeId x = i') \<Longrightarrow>
     (\<And>e. e \<in> set (allElems [x]) \<Longrightarrow> nodeId e = i \<Longrightarrow>
        i' \<notin> set (idsIn [e]) \<and> i' \<notin> set (idsIn (f e))) \<Longrightarrow> i \<noteq> i' \<Longrightarrow>
     \<exists>rest'. followersIn i' (updNode i f x @ zs) = Some (x0 # rest')"
    and "followersIn i' ns = Some (x0 # rest) \<Longrightarrow>
     (\<And>e. e \<in> set (allElems ns) \<Longrightarrow> nodeId e = i \<Longrightarrow>
        i' \<notin> set (idsIn [e]) \<and> i' \<notin> set (idsIn (f e))) \<Longrightarrow> i \<noteq> i' \<Longrightarrow>
     \<exists>rest'. followersIn i' (concat (map (updNode i f) ns) @ zs) = Some (x0 # rest')"
proof (induction i' x and i' ns arbitrary: rest zs and rest zs rule: followers_followersIn.induct)
  case (1 i' j n as cs)
  have j: "j \<noteq> i'" using "1.prems"(2) by simp
  have c: "followersIn i' cs = Some (x0 # rest)" using "1.prems"(1) by simp
  show ?case
  proof (cases "i = j")
    case True
    have "i' \<notin> set (idsIn [Element j n as cs])"
      using "1.prems"(3) [of "Element j n as cs"] True by simp
    then have "i' \<notin> set (idsIn cs)" by simp
    then have "followersIn i' cs = None" by (rule followers_ids(2) [THEN iffD2])
    then show ?thesis using c by simp
  next
    case False
    obtain rest' where "followersIn i' (concat (map (updNode i f) cs) @ []) = Some (x0 # rest')"
      using "1.IH" [OF c _ "1.prems"(4), of "[]"] "1.prems"(3) by auto
    then show ?thesis using False j by simp
  qed
next
  case (6 i' x xs)
  note ne = "6.prems"(3)
  have el: "set (allElems (x # xs)) = set (allElems [x]) \<union> set (allElems xs)"
    by (subst allElems_Cons) simp
  have x0: "updNode i f x0 = [x0]" using a by (simp add: upd_absent(1) find_ids(1))
  show ?case
  proof (cases "isElement x \<and> nodeId x = i'")
    case True
    then have xs: "xs = x0 # rest" using "6.prems"(1) by simp
    obtain n as cs where x: "x = Element i' n as cs" using True by (cases x) auto
    have "updNode i f x = [Element i' n as (concat (map (updNode i f) cs))]"
      using ne x by simp
    then show ?thesis using xs x0 by simp
  next
    case False
    show ?thesis
    proof (cases "followers i' x")
      case None
      then have r: "followersIn i' xs = Some (x0 # rest)" using "6.prems"(1) False by simp
      obtain rest' where
        t: "followersIn i' (concat (map (updNode i f) xs) @ zs) = Some (x0 # rest')"
        using "6.IH"(2) [OF False None r _ ne, of zs] "6.prems"(2) el by blast
      have "i' \<notin> set (idsIn [x])"
        using None False followers_ids(1) [of i' x] by (cases x) auto
      then have "i' \<notin> set (idsIn (updNode i f x))"
        by (rule upd_not_in) (use "6.prems"(2) el in auto)
      then have "findIn i' (updNode i f x) = None" by (rule find_ids(2) [THEN iffD2])
      then show ?thesis using t by (simp add: followers_skip)
    next
      case (Some r)
      then have r: "r = x0 # rest" using "6.prems"(1) False by simp
      obtain rest' where
        "followersIn i' (updNode i f x @ (concat (map (updNode i f) xs) @ zs)) = Some (x0 # rest')"
        using "6.IH"(1) [OF False _ False _ ne, of rest "concat (map (updNode i f) xs) @ zs"]
          Some r "6.prems"(2) el by blast
      then show ?thesis by simp
    qed
  qed
qed simp_all

lemma goodPlace_html:
  "goodPlace (\<lambda>e new. [Element (nodeId e) (nodeName e) (nodeAttribs e) new])"
  unfolding goodPlace_def
proof (intro allI impI)
  fix e :: node and new assume "isElement e"
  then obtain i n as cs where "e = Element i n as cs" by (cases e) auto
  then show "set (idsIn [Element (nodeId e) (nodeName e) (nodeAttribs e) new])
               \<subseteq> set (idsIn [e]) \<union> set (idsIn new) \<and>
        (distinct (idsIn [e]) \<and> distinct (idsIn new) \<and> set (idsIn [e]) \<inter> set (idsIn new) = {}
           \<longrightarrow> distinct (idsIn [Element (nodeId e) (nodeName e) (nodeAttribs e) new]))"
    by auto
qed

lemma goodPlace_append:
  "goodPlace (\<lambda>e new. [Element (nodeId e) (nodeName e) (nodeAttribs e) (childrenOf e @ new)])"
  unfolding goodPlace_def
proof (intro allI impI)
  fix e :: node and new assume "isElement e"
  then obtain i n as cs where "e = Element i n as cs" by (cases e) auto
  then show "set (idsIn [Element (nodeId e) (nodeName e) (nodeAttribs e) (childrenOf e @ new)])
               \<subseteq> set (idsIn [e]) \<union> set (idsIn new) \<and>
        (distinct (idsIn [e]) \<and> distinct (idsIn new) \<and> set (idsIn [e]) \<inter> set (idsIn new) = {}
           \<longrightarrow> distinct (idsIn [Element (nodeId e) (nodeName e) (nodeAttribs e)
                                    (childrenOf e @ new)]))"
    by auto
qed

lemma goodPlace_after: "goodPlace (\<lambda>e new. e # new)"
  unfolding goodPlace_def
proof (intro allI impI)
  fix e :: node and new assume "isElement e"
  show "set (idsIn (e # new)) \<subseteq> set (idsIn [e]) \<union> set (idsIn new) \<and>
        (distinct (idsIn [e]) \<and> distinct (idsIn new) \<and> set (idsIn [e]) \<inter> set (idsIn new) = {}
           \<longrightarrow> distinct (idsIn (e # new)))"
    by (subst idsIn_Cons, subst (4) idsIn_Cons) auto
qed

lemma manipulate_wellLabelled:
  assumes wl: "wellLabelled d" and gp: "goodPlace place"
  shows "wellLabelled (manipulate parse d el markup place)"
    and "fresh d \<le> fresh (manipulate parse d el markup place)"
proof -
  obtain new k where l: "labelNodes (fresh d) (parse markup) = (new, k)"
    by (cases "labelNodes (fresh d) (parse markup)") auto
  note li = label_ids(2) [OF l]
  let ?N = "set (idsIn new)"
  let ?f = "\<lambda>e. place e new"
  have d: "distinct (idsIn (roots d))" and b: "\<forall>i\<in>set (idsIn (roots d)). i < fresh d"
    using wl by (auto simp: wellLabelled_def)
  have dj: "set (idsIn (roots d)) \<inter> ?N = {}" using b li by fastforce
  have f: "\<And>e. isElement e \<Longrightarrow> set (idsIn (?f e)) \<subseteq> set (idsIn [e]) \<union> ?N"
    using gp by (simp add: goodPlace_def)
  have g: "\<And>e. isElement e \<Longrightarrow> distinct (idsIn [e]) \<Longrightarrow> set (idsIn [e]) \<inter> ?N = {} \<Longrightarrow>
              distinct (idsIn (?f e))"
    using gp li by (simp add: goodPlace_def)
  have r: "roots (manipulate parse d el markup place)
             = concat (map (updNode (nodeId el) ?f) (roots d))"
    and k: "fresh (manipulate parse d el markup place) = k"
    using l by (simp_all add: manipulate_def)
  have "distinct (idsIn (concat (map (updNode (nodeId el) ?f) (roots d))))"
    by (rule upd_distinct_list [OF f g d dj])
  moreover have "set (idsIn (concat (map (updNode (nodeId el) ?f) (roots d))))
                   \<subseteq> set (idsIn (roots d)) \<union> ?N"
    by (rule upd_subset_list [OF f])
  ultimately show "wellLabelled (manipulate parse d el markup place)"
    unfolding wellLabelled_def r k using b li by fastforce
  show "fresh d \<le> fresh (manipulate parse d el markup place)"
    unfolding k using li by simp
qed

lemma manipulate_keeps:
  assumes wl: "wellLabelled d" and gp: "goodPlace place"
    and b: "findIn (nodeId b) (roots d) = Some b"
    and E: "findIn i' (roots d) = Some E"
    and a: "nodeId b \<notin> set (idsIn [E])" and c: "i' \<notin> set (idsIn [b])"
  shows "findIn i' (roots (manipulate parse d b markup place)) = Some E"
proof -
  obtain new k where l: "labelNodes (fresh d) (parse markup) = (new, k)"
    by (cases "labelNodes (fresh d) (parse markup)") auto
  note li = label_ids(2) [OF l]
  let ?f = "\<lambda>e. place e new"
  have d: "distinct (idsIn (roots d))" and bd: "\<forall>i\<in>set (idsIn (roots d)). i < fresh d"
    using wl by (auto simp: wellLabelled_def)
  have "i' \<in> set (idsIn (roots d))" using E find_ids(2) [of i' "roots d"] by auto
  then have n: "i' \<notin> set (idsIn new)" using bd li by fastforce
  have be: "isElement b" using b found_is_element(2) by blast
  have fb: "i' \<notin> set (idsIn (?f b))"
    using gp be c n by (auto simp: goodPlace_def)
  have "findIn i' (concat (map (updNode (nodeId b) ?f) (roots d))) = Some E"
  proof (rule upd_frame(2) [OF a E])
    fix e assume e: "e \<in> set (allElems (roots d))" "nodeId e = nodeId b"
    have "e = b" by (rule unique_by_id [OF d b e])
    then show "i' \<notin> set (idsIn [e]) \<and> i' \<notin> set (idsIn (?f e))" using c fb by simp
  qed
  then show ?thesis using l by (simp add: manipulate_def)
qed

lemma manipulate_keeps_followers:
  assumes wl: "wellLabelled d" and gp: "goodPlace place"
    and b: "findIn (nodeId b) (roots d) = Some b"
    and E: "followersIn i' (roots d) = Some (x0 # rest)"
    and a: "nodeId b \<notin> set (idsIn [x0])" and c: "i' \<notin> set (idsIn [b])"
  shows "\<exists>rest'. followersIn i' (roots (manipulate parse d b markup place)) = Some (x0 # rest')"
proof -
  obtain new k where l: "labelNodes (fresh d) (parse markup) = (new, k)"
    by (cases "labelNodes (fresh d) (parse markup)") auto
  note li = label_ids(2) [OF l]
  let ?f = "\<lambda>e. place e new"
  have d: "distinct (idsIn (roots d))" and bd: "\<forall>i\<in>set (idsIn (roots d)). i < fresh d"
    using wl by (auto simp: wellLabelled_def)
  have "i' \<in> set (idsIn (roots d))" using E followers_ids(2) [of i' "roots d"] by auto
  then have n: "i' \<notin> set (idsIn new)" using bd li by fastforce
  have be: "isElement b" using b found_is_element(2) by blast
  then have ne: "nodeId b \<noteq> i'" using c by (cases b) auto
  have fb: "i' \<notin> set (idsIn (?f b))"
    using gp be c n by (auto simp: goodPlace_def)
  have "\<exists>rest'. followersIn i' (concat (map (updNode (nodeId b) ?f) (roots d)) @ [])
                  = Some (x0 # rest')"
  proof (rule followers_frame(2) [OF a E _ ne])
    fix e assume e: "e \<in> set (allElems (roots d))" "nodeId e = nodeId b"
    have "e = b" by (rule unique_by_id [OF d b e])
    then show "i' \<notin> set (idsIn [e]) \<and> i' \<notin> set (idsIn (?f e))" using c fb by simp
  qed
  then show ?thesis using l by (simp add: manipulate_def)
qed

lemma applyOne_manipulate:
  "\<exists>markup place. goodPlace place \<and>
      (\<forall>d. applyOne parse m d b t = manipulate parse d b markup place)"
proof (cases "m = Replace")
  case True
  then show ?thesis
    using goodPlace_html by (auto simp: applyOne_def replaceBlock_def cheerio_html_def)
next
  case False
  consider "tagName b = js ''li''" | "tagName b \<noteq> js ''li''" "tagName b = js ''blockquote''"
    | "tagName b \<noteq> js ''li''" "tagName b \<noteq> js ''blockquote''" by blast
  then show ?thesis
  proof cases
    case 1
    then show ?thesis
      using False goodPlace_append
      by (auto simp: applyOne_def insertBilingual_def Let_def cheerio_append_def)
  next
    case 2
    then show ?thesis
      using False goodPlace_append
      by (auto simp: applyOne_def insertBilingual_def Let_def cheerio_append_def)
  next
    case 3
    show ?thesis
    proof (cases "isHeadingName (tagName b)")
      case True
      then show ?thesis
        using False 3 goodPlace_after
        by (auto simp: applyOne_def insertBilingual_def Let_def cheerio_after_def)
    next
      case h: False
      then show ?thesis
        using False 3 goodPlace_after
        by (auto simp: applyOne_def insertBilingual_def Let_def cheerio_after_def)
    qed
  qed
qed

lemma found_bound:
  "wellLabelled d \<Longrightarrow> findIn i (roots d) = Some e \<Longrightarrow> i < fresh d"
  using find_ids(2) [of i "roots d"] by (auto simp: wellLabelled_def)

lemma step_blocksIn:
  assumes "blocksIn d (b # bs)"
  shows "blocksIn (applyOne parse m d b t) bs" and "fresh d \<le> fresh (applyOne parse m d b t)"
proof -
  obtain markup place where gp: "goodPlace place"
    and ap: "applyOne parse m d b t = manipulate parse d b markup place"
    using applyOne_manipulate [of parse m b t] by blast
  have wl: "wellLabelled d" and fb: "findIn (nodeId b) (roots d) = Some b"
    and di: "distinct (b # bs)"
    and fo: "\<forall>b'\<in>set bs. findIn (nodeId b') (roots d) = Some b'"
    and nn: "\<forall>x\<in>set (b # bs). \<forall>y\<in>set (b # bs). x \<noteq> y \<longrightarrow> nodeId y \<notin> set (idsIn [x])"
    using assms by (auto simp: blocksIn_def)
  have "findIn (nodeId b') (roots (manipulate parse d b markup place)) = Some b'"
    if b': "b' \<in> set bs" for b'
  proof (rule manipulate_keeps [OF wl gp fb])
    show "findIn (nodeId b') (roots d) = Some b'" using fo b' by simp
    have "b \<noteq> b'" using di b' by auto
    then show "nodeId b \<notin> set (idsIn [b'])" "nodeId b' \<notin> set (idsIn [b])"
      using nn b' by auto
  qed
  then show "blocksIn (applyOne parse m d b t) bs"
    unfolding ap blocksIn_def
    using manipulate_wellLabelled(1) [OF wl gp] di nn by auto
  show "fresh d \<le> fresh (applyOne parse m d b t)"
    unfolding ap by (rule manipulate_wellLabelled(2) [OF wl gp])
qed

lemma emptyAt_mono: "emptyAt K m b D \<Longrightarrow> K' \<le> K \<Longrightarrow> emptyAt K' m b D"
  unfolding emptyAt_def by (auto split: if_splits intro: order_trans)

lemma emptyAt_step:
  assumes f: "findIn (nodeId b) (roots d) = Some b"
  shows "emptyAt (fresh d) m b (applyOne parseMarkup m d b [])"
proof (cases "m = Replace")
  case True
  have "findIn (nodeId b) (roots (replaceBlock parseMarkup d b []))
           = Some (Element (nodeId b) (nodeName b) (nodeAttribs b) [])"
    using html_sets_children [OF f, of parseMarkup "[]"]
    by (simp add: replaceBlock_def strip_empty parse_plain)
  then show ?thesis using True by (simp add: emptyAt_def applyOne_def)
next
  case False
  have s: "60 \<notin> set (stripBlockTags [])" "38 \<notin> set (stripBlockTags [])"
    by (simp_all add: strip_empty)
  have a: "\<And>k tg. artifact k tg (stripBlockTags []) = Element k tg [(js ''class'', MARKER)] []"
    by (simp add: artifact_def strip_empty)
  note bl = bilingual_plain_placement [OF f s, unfolded a]
  have "applyOne parseMarkup m d b [] = insertBilingual parseMarkup d b []"
    using False by (simp add: applyOne_def)
  then show ?thesis
    unfolding emptyAt_def using False bl by (auto split: if_splits)
qed

lemma emptyAt_keep:
  assumes wl: "wellLabelled d" and gp: "goodPlace place"
    and f: "findIn (nodeId b') (roots d) = Some b'"
    and e: "emptyAt K m b d" and el: "isElement b"
    and k: "nodeId b' < K"
    and n1: "nodeId b' \<notin> set (idsIn [b])" and n2: "nodeId b \<notin> set (idsIn [b'])"
  shows "emptyAt K m b (manipulate parse d b' markup place)"
proof -
  have ib: "idsIn [b] = nodeId b # idsIn (childrenOf b)" using el by (rule idsIn_element)
  have ne: "nodeId b' \<noteq> nodeId b" "nodeId b' \<notin> set (idsIn (childrenOf b))"
    using n1 ib by auto
  have keep: "findIn (nodeId b) (roots (manipulate parse d b' markup place)) = Some E"
    if "findIn (nodeId b) (roots d) = Some E" "nodeId b' \<notin> set (idsIn [E])" for E
    using manipulate_keeps [OF wl gp f that(1) that(2) n2] .
  have keepf: "\<exists>rest'. followersIn (nodeId b) (roots (manipulate parse d b' markup place))
                  = Some (x0 # rest')"
    if "followersIn (nodeId b) (roots d) = Some (x0 # rest)" "nodeId b' \<notin> set (idsIn [x0])"
    for x0 rest
    using manipulate_keeps_followers [OF wl gp f that(1) that(2) n2] .
  show ?thesis
  proof (cases "m = Replace")
    case True
    then have "findIn (nodeId b) (roots d)
                 = Some (Element (nodeId b) (nodeName b) (nodeAttribs b) [])"
      using e by (simp add: emptyAt_def)
    from keep [OF this] ne show ?thesis using True by (simp add: emptyAt_def)
  next
    case False
    then obtain k where kk: "K \<le> k"
      and c: "if tagName b = js ''li''
        then findIn (nodeId b) (roots d)
               = Some (Element (nodeId b) (nodeName b) (nodeAttribs b)
                         (childrenOf b @ [Element k (js ''div'') [(js ''class'', MARKER)] []]))
        else if tagName b = js ''blockquote''
        then findIn (nodeId b) (roots d)
               = Some (Element (nodeId b) (nodeName b) (nodeAttribs b)
                         (childrenOf b @ [Element k (js ''p'') [(js ''class'', MARKER)] []]))
        else if isHeadingName (tagName b)
        then \<exists>rest. followersIn (nodeId b) (roots d)
               = Some (Element k (js ''div'') [(js ''class'', MARKER)] [] # rest)
        else \<exists>rest. followersIn (nodeId b) (roots d)
               = Some (Element k (js ''p'') [(js ''class'', MARKER)] [] # rest)"
      using e unfolding emptyAt_def by auto
    have nk: "nodeId b' \<noteq> k" using k kk by simp
    have "if tagName b = js ''li''
        then findIn (nodeId b) (roots (manipulate parse d b' markup place))
               = Some (Element (nodeId b) (nodeName b) (nodeAttribs b)
                         (childrenOf b @ [Element k (js ''div'') [(js ''class'', MARKER)] []]))
        else if tagName b = js ''blockquote''
        then findIn (nodeId b) (roots (manipulate parse d b' markup place))
               = Some (Element (nodeId b) (nodeName b) (nodeAttribs b)
                         (childrenOf b @ [Element k (js ''p'') [(js ''class'', MARKER)] []]))
        else if isHeadingName (tagName b)
        then \<exists>rest. followersIn (nodeId b) (roots (manipulate parse d b' markup place))
               = Some (Element k (js ''div'') [(js ''class'', MARKER)] [] # rest)
        else \<exists>rest. followersIn (nodeId b) (roots (manipulate parse d b' markup place))
               = Some (Element k (js ''p'') [(js ''class'', MARKER)] [] # rest)"
    proof -
      consider (li) "tagName b = js ''li''"
        | (bq) "tagName b \<noteq> js ''li''" "tagName b = js ''blockquote''"
        | (hd) "tagName b \<noteq> js ''li''" "tagName b \<noteq> js ''blockquote''"
               "isHeadingName (tagName b)"
        | (ot) "tagName b \<noteq> js ''li''" "tagName b \<noteq> js ''blockquote''"
               "\<not> isHeadingName (tagName b)"
        by blast
      then show ?thesis
      proof cases
        case li
        then have "findIn (nodeId b) (roots d)
               = Some (Element (nodeId b) (nodeName b) (nodeAttribs b)
                         (childrenOf b @ [Element k (js ''div'') [(js ''class'', MARKER)] []]))"
          using c by simp
        from keep [OF this] ne nk li show ?thesis by simp
      next
        case bq
        then have "findIn (nodeId b) (roots d)
               = Some (Element (nodeId b) (nodeName b) (nodeAttribs b)
                         (childrenOf b @ [Element k (js ''p'') [(js ''class'', MARKER)] []]))"
          using c by simp
        from keep [OF this] ne nk bq show ?thesis by simp
      next
        case hd
        then obtain rest where "followersIn (nodeId b) (roots d)
               = Some (Element k (js ''div'') [(js ''class'', MARKER)] [] # rest)"
          using c by auto
        from keepf [OF this] nk hd show ?thesis by simp
      next
        case ot
        then obtain rest where "followersIn (nodeId b) (roots d)
               = Some (Element k (js ''p'') [(js ''class'', MARKER)] [] # rest)"
          using c by auto
        from keepf [OF this] nk ot show ?thesis by simp
      qed
    qed
    then show ?thesis unfolding emptyAt_def using False kk by auto
  qed
qed

lemma applyFrom_keeps_empty:
  assumes "blocksIn d bs" and "emptyAt K m b d" and "isElement b"
    and "\<forall>b'\<in>set bs. nodeId b' < K \<and> nodeId b' \<notin> set (idsIn [b]) \<and>
                       nodeId b \<notin> set (idsIn [b'])"
  shows "emptyAt K m b (applyFrom parse m tr j bs d)"
  using assms
proof (induction bs arbitrary: d j)
  case Nil
  then show ?case by simp
next
  case (Cons b' bs)
  let ?t = "translationAt tr j"
  obtain markup place where gp: "goodPlace place"
    and ap: "applyOne parse m d b' ?t = manipulate parse d b' markup place"
    using applyOne_manipulate [of parse m b' ?t] by blast
  have wl: "wellLabelled d" and f: "findIn (nodeId b') (roots d) = Some b'"
    using Cons.prems(1) by (auto simp: blocksIn_def)
  have "emptyAt K m b (applyOne parse m d b' ?t)"
    unfolding ap
    by (rule emptyAt_keep [OF wl gp f Cons.prems(2,3)]) (use Cons.prems(4) in auto)
  moreover have "blocksIn (applyOne parse m d b' ?t) bs"
    using Cons.prems(1) by (rule step_blocksIn(1))
  ultimately show ?case
    using Cons.IH [of "applyOne parse m d b' ?t" "Suc j"] Cons.prems(3,4) by simp
qed

lemma applyFrom_empties:
  assumes "blocksIn d bs" and "q < length bs" and "length tr \<le> j + q"
  shows "emptyAt (fresh d) m (bs ! q) (applyFrom parseMarkup m tr j bs d)"
  using assms
proof (induction bs arbitrary: d j q)
  case Nil
  then show ?case by simp
next
  case (Cons b bs)
  let ?d1 = "applyOne parseMarkup m d b (translationAt tr j)"
  have st: "blocksIn ?d1 bs" "fresh d \<le> fresh ?d1"
    using Cons.prems(1) by (rule step_blocksIn)+
  have wl: "wellLabelled d" and fb: "findIn (nodeId b) (roots d) = Some b"
    and di: "distinct (b # bs)"
    and fo: "\<forall>b'\<in>set bs. findIn (nodeId b') (roots d) = Some b'"
    and nn: "\<forall>x\<in>set (b # bs). \<forall>y\<in>set (b # bs). x \<noteq> y \<longrightarrow> nodeId y \<notin> set (idsIn [x])"
    using Cons.prems(1) by (auto simp: blocksIn_def)
  show ?case
  proof (cases q)
    case 0
    then have "translationAt tr j = []" using Cons.prems(3) by (simp add: translationAt_def)
    then have e: "emptyAt (fresh d) m b ?d1" using emptyAt_step [OF fb, of m] by simp
    have el: "isElement b" using fb found_is_element(2) by blast
    have side: "\<forall>b'\<in>set bs. nodeId b' < fresh d \<and> nodeId b' \<notin> set (idsIn [b]) \<and>
                       nodeId b \<notin> set (idsIn [b'])"
    proof
      fix b' assume b': "b' \<in> set bs"
      then have "b \<noteq> b'" using di by auto
      moreover have "nodeId b' < fresh d" using found_bound [OF wl] fo b' by blast
      ultimately show "nodeId b' < fresh d \<and> nodeId b' \<notin> set (idsIn [b]) \<and>
                       nodeId b \<notin> set (idsIn [b'])"
        using nn b' by auto
    qed
    have "emptyAt (fresh d) m b (applyFrom parseMarkup m tr (Suc j) bs ?d1)"
      by (rule applyFrom_keeps_empty [OF st(1) e el side])
    then show ?thesis using 0 by simp
  next
    case (Suc q')
    then have "emptyAt (fresh ?d1) m (bs ! q') (applyFrom parseMarkup m tr (Suc j) bs ?d1)"
      using Cons.IH [OF st(1), of q' "Suc j"] Cons.prems(2,3) by simp
    then have "emptyAt (fresh d) m (bs ! q') (applyFrom parseMarkup m tr (Suc j) bs ?d1)"
      using st(2) by (rule emptyAt_mono)
    then show ?thesis using Suc by simp
  qed
qed

text \<open>
  The hypotheses on the blocks hold of what the program applies: a loaded document is
  well-labelled, the nodes that selectLeafBlocks returns are blocks of it, and so are
  the nodes of every chunk made of them.
\<close>

lemma load_wellLabelled: "wellLabelled (cheerio_load parse content)"
proof -
  obtain ns k where l: "labelNodes 0 (parse content) = (ns, k)"
    by (cases "labelNodes 0 (parse content)") auto
  from label_ids(2) [OF l] show ?thesis
    using l by (auto simp: wellLabelled_def cheerio_load_def)
qed

lemma elem_found:
  assumes d: "distinct (idsIn ns)" and e: "e \<in> set (allElems ns)"
  shows "findIn (nodeId e) ns = Some e"
proof -
  have "nodeId e \<in> set (idsIn ns)" using e by (simp add: idsIn_def)
  then obtain b where b: "findIn (nodeId e) ns = Some b"
    using find_ids(2) [of "nodeId e" ns] by auto
  have "e = b" by (rule unique_by_id [OF d b e refl])
  then show ?thesis using b by simp
qed

lemma elem_closed:
  "e \<in> set (elemsOf x) \<Longrightarrow> set (allElems (childrenOf e)) \<subseteq> set (elemsOf x)"
proof (induction x rule: elemsOf.induct)
  case (1 i n as cs)
  show ?case
  proof (cases "e = Element i n as cs")
    case True
    then show ?thesis by (auto simp: allElems_def)
  next
    case False
    then obtain c where c: "c \<in> set cs" "e \<in> set (elemsOf c)" using "1.prems" by auto
    from "1.IH" [OF c] show ?thesis using c(1) by auto
  qed
qed simp_all

lemma elems_closed:
  "e \<in> set (allElems ns) \<Longrightarrow> set (allElems (childrenOf e)) \<subseteq> set (allElems ns)"
  using elem_closed by (fastforce simp: allElems_def)

lemma leaves_blocksIn:
  assumes wl: "wellLabelled d"
  shows "blocksIn d (selectLeafBlocks (roots d))"
proof -
  let ?rs = "roots d" and ?L = "selectLeafBlocks (roots d)"
  have d: "distinct (idsIn ?rs)" using wl by (simp add: wellLabelled_def)
  then have inj: "inj_on nodeId (set (allElems ?rs))" and da: "distinct (allElems ?rs)"
    by (simp_all add: idsIn_def distinct_map)
  have sub: "\<And>b. b \<in> set ?L \<Longrightarrow> b \<in> set (allElems ?rs) \<and> matchesBlock b \<and>
                filter matchesBlock (allElems (childrenOf b)) = []"
    by (auto simp: selectLeafBlocks_def selectBlocks_def findBlocks_def Let_def split: if_splits)
  have dl: "distinct ?L"
    using da by (simp add: selectLeafBlocks_def selectBlocks_def Let_def)
  have fo: "\<forall>b\<in>set ?L. findIn (nodeId b) ?rs = Some b"
    using sub elem_found [OF d] by blast
  have nn: "\<forall>b\<in>set ?L. \<forall>b'\<in>set ?L. b \<noteq> b' \<longrightarrow> nodeId b' \<notin> set (idsIn [b])"
  proof (intro ballI impI notI)
    fix b b' assume b: "b \<in> set ?L" and b': "b' \<in> set ?L" and ne: "b \<noteq> b'"
      and i: "nodeId b' \<in> set (idsIn [b])"
    have be: "isElement b" using sub [OF b] by (simp add: matchesBlock_def)
    have "nodeId b' \<noteq> nodeId b" using inj sub [OF b] sub [OF b'] ne by (auto dest: inj_onD)
    then have "nodeId b' \<in> set (idsIn (childrenOf b))"
      using i idsIn_element [OF be] by simp
    then obtain e where e: "e \<in> set (allElems (childrenOf b))" "nodeId e = nodeId b'"
      by (auto simp: idsIn_def)
    then have "e \<in> set (allElems ?rs)" using elems_closed sub [OF b] by blast
    then have "e = b'" using inj sub [OF b'] e(2) by (auto dest: inj_onD)
    then have "b' \<in> set (filter matchesBlock (allElems (childrenOf b)))"
      using e(1) sub [OF b'] by simp
    then show False using sub [OF b] by simp
  qed
  show ?thesis unfolding blocksIn_def using wl dl fo nn by simp
qed

lemma blocksIn_sub:
  "blocksIn d bs \<Longrightarrow> set bs' \<subseteq> set bs \<Longrightarrow> distinct bs' \<Longrightarrow> blocksIn d bs'"
  unfolding blocksIn_def by blast

lemma chunk_blocksIn:
  assumes wl: "wellLabelled d"
    and l: "set (map node blocks) \<subseteq> set (selectLeafBlocks (roots d))"
    and di: "distinct (map node blocks)"
    and c: "c \<in> set (chunkBlocks budget cap blocks)"
  shows "blocksIn d (nodes c)"
proof -
  have cc: "concat (map nodes (chunkBlocks budget cap blocks)) = map node blocks"
    using chunkBlocks_concat by blast
  have "set (nodes c) \<subseteq> set (concat (map nodes (chunkBlocks budget cap blocks)))"
    using c by auto
  then have s: "set (nodes c) \<subseteq> set (selectLeafBlocks (roots d))" using cc l by auto
  have "distinct (concat (map nodes (chunkBlocks budget cap blocks)))" using cc di by simp
  then have "distinct (nodes c)" using c by (auto simp: distinct_concat_iff)
  then show ?thesis using blocksIn_sub [OF leaves_blocksIn [OF wl] s] by simp
qed

text \<open>
  C5, amended. Let the blocks of a chunk be distinct elements of the document, none
  inside another (as the nodes that selectLeafBlocks returns are), and let the
  translated array be shorter than the chunk. After the whole chunk is applied, every
  block at a position \<open>j\<close> at or beyond the length of the array has the empty
  translation: in replace mode the block is in the document with its name and
  attributes and no content; in bilingual mode a new element with the marker class and
  no content is the last child of a list item or a quotation and the next sibling of a
  heading or any other block. No error is raised, and a job whose manifest resolves
  and whose requests are all answered completes.
\<close>

theorem short_result_gives_empty_translations:
  assumes "blocksIn d (nodes c)"
    and "length translated \<le> j" and "j < length (nodes c)"
    and "resolveSpine parse z = Inr spine"
    and "\<forall>n r e. svc n r \<noteq> Throws e"
  shows "translationAt translated j = [] \<and>
     (m = Replace \<longrightarrow>
        findIn (nodeId (nodes c ! j)) (roots (applyChunk parseMarkup m c translated d))
          = Some (Element (nodeId (nodes c ! j)) (nodeName (nodes c ! j))
                    (nodeAttribs (nodes c ! j)) [])) \<and>
     (m \<noteq> Replace \<longrightarrow>
        (\<exists>k\<ge>fresh d.
           if tagName (nodes c ! j) = js ''li''
           then findIn (nodeId (nodes c ! j)) (roots (applyChunk parseMarkup m c translated d))
                  = Some (Element (nodeId (nodes c ! j)) (nodeName (nodes c ! j))
                            (nodeAttribs (nodes c ! j))
                            (childrenOf (nodes c ! j)
                             @ [Element k (js ''div'') [(js ''class'', MARKER)] []]))
           else if tagName (nodes c ! j) = js ''blockquote''
           then findIn (nodeId (nodes c ! j)) (roots (applyChunk parseMarkup m c translated d))
                  = Some (Element (nodeId (nodes c ! j)) (nodeName (nodes c ! j))
                            (nodeAttribs (nodes c ! j))
                            (childrenOf (nodes c ! j)
                             @ [Element k (js ''p'') [(js ''class'', MARKER)] []]))
           else if isHeadingName (tagName (nodes c ! j))
           then \<exists>rest. followersIn (nodeId (nodes c ! j))
                          (roots (applyChunk parseMarkup m c translated d))
                  = Some (Element k (js ''div'') [(js ''class'', MARKER)] [] # rest)
           else \<exists>rest. followersIn (nodeId (nodes c ! j))
                          (roots (applyChunk parseMarkup m c translated d))
                  = Some (Element k (js ''p'') [(js ''class'', MARKER)] [] # rest))) \<and>
     fst (translateEpub ps parse render svc z) = None"
proof -
  have t: "translationAt translated j = []"
    using assms(2) by (simp add: translationAt_def)
  have "emptyAt (fresh d) m (nodes c ! j) (applyFrom parseMarkup m translated 0 (nodes c) d)"
    by (rule applyFrom_empties [OF assms(1) assms(3)]) (use assms(2) in simp)
  then have e: "emptyAt (fresh d) m (nodes c ! j) (applyChunk parseMarkup m c translated d)"
    by (simp add: applyChunk_def)
  have j: "fst (translateEpub ps parse render svc z) = None"
    using assms(4,5) by (rule job_completes)
  show ?thesis
    using t j e unfolding emptyAt_def by (cases "m = Replace") simp_all
qed

lemma twoParagraphsDoc_roots:
  "roots twoParagraphsDoc
     = [Element 0 (js ''body'') []
          [Element 1 (js ''p'') [] [Text (js ''Hi'')],
           Element 2 (js ''p'') [] [Text (js ''Yo'')]]]"
  "fresh twoParagraphsDoc = 3"
  by (simp_all add: twoParagraphsDoc_def cheerio_load_def parse_defs)

lemma twoBlocks_in: "blocksIn twoParagraphsDoc (nodes twoBlocks)"
  by (simp add: blocksIn_def wellLabelled_def twoParagraphsDoc_roots twoBlocks_def js_def)

lemma twoBlocks_leaves: "selectLeafBlocks (roots twoParagraphsDoc) = nodes twoBlocks"
  by (simp add: twoParagraphsDoc_roots twoBlocks_def select_defs)

theorem short_result_gives_empty_translations_witness:
  "blocksIn twoParagraphsDoc (nodes twoBlocks) \<and>
   selectLeafBlocks (roots twoParagraphsDoc) = nodes twoBlocks \<and>
   length [js ''Salut''] \<le> (1::nat) \<and> (1::nat) < length (nodes twoBlocks) \<and>
   resolveSpine parseMarkup twoParagraphs = Inr [js ''a.html''] \<and>
   (\<forall>n r e. shortService n r \<noteq> Throws e) \<and>
   nodes twoBlocks ! 1 = Element 2 (js ''p'') [] [Text (js ''Yo'')] \<and>
   findIn 2 (roots (applyChunk parseMarkup Replace twoBlocks [js ''Salut''] twoParagraphsDoc))
     = Some (Element 2 (js ''p'') [] []) \<and>
   (\<exists>k\<ge>3. \<exists>rest.
      followersIn 2 (roots (applyChunk parseMarkup Bilingual twoBlocks [js ''Salut'']
                              twoParagraphsDoc))
        = Some (Element k (js ''p'') [(js ''class'', MARKER)] [] # rest)) \<and>
   fst (translateEpub params0 parseMarkup renderXml shortService twoParagraphs) = None"
proof -
  have l: "length [js ''Salut''] \<le> (1::nat)" "(1::nat) < length (nodes twoBlocks)"
    by (simp_all add: twoBlocks_def)
  have n: "nodes twoBlocks ! 1 = Element 2 (js ''p'') [] [Text (js ''Yo'')]"
    by (simp add: twoBlocks_def)
  have tg: "tagName (Element 2 (js ''p'') [] [Text (js ''Yo'')]) = js ''p''"
    by (simp add: tagName_def toLowerCase_def js_def)
  note r = short_result_gives_empty_translations
    [OF twoBlocks_in l resolve_two shortService_answers, of Replace params0 renderXml]
  note b = short_result_gives_empty_translations
    [OF twoBlocks_in l resolve_two shortService_answers, of Bilingual params0 renderXml]
  have r1: "findIn 2 (roots (applyChunk parseMarkup Replace twoBlocks [js ''Salut'']
                               twoParagraphsDoc))
              = Some (Element 2 (js ''p'') [] [])"
    and r2: "fst (translateEpub params0 parseMarkup renderXml shortService twoParagraphs) = None"
    using r unfolding n by simp_all
  have b1: "\<exists>k\<ge>3. \<exists>rest.
      followersIn 2 (roots (applyChunk parseMarkup Bilingual twoBlocks [js ''Salut'']
                              twoParagraphsDoc))
        = Some (Element k (js ''p'') [(js ''class'', MARKER)] [] # rest)"
    using b unfolding n by (simp add: tg p_not_special twoParagraphsDoc_roots)
  show ?thesis
    using twoBlocks_in twoBlocks_leaves l resolve_two shortService_answers n r1 r2 b1
    by simp
qed

end
